theory Spec2Isabelle
  imports Complex_Main "HOL-Library.Word" "HOL-Library.Multiset"
begin

unbundle bit_operations_syntax

section \<open>Polynomial enumerator (producer loop of generateAlgebraicNumbers)\<close>

text \<open>
  The work item sent on the channel. The coefficients are complex128 values in the
  source; every one is built as \<open>complex(float64(n), 0)\<close> from a Go int \<open>n\<close>, which
  is modelled as the complex number with real part \<open>n\<close> and imaginary part 0.
  The field names \<open>coeffs\<close>, \<open>h\<close> and \<open>order\<close> are taken by the record, so the
  variables \<open>h\<close> and \<open>order\<close> of the source are written \<open>ht\<close> and \<open>ord\<close> (or \<open>k\<close>,
  which \<open>order\<close> is a copy of) in the functions below.
\<close>

record PolyWork =
  coeffs :: "complex list"
  h :: int
  order :: int
  leadingCoeff :: int

text \<open>The test \<open>(i>>j)&1 == 1\<close> on Go ints.\<close>

definition bitSet :: "int \<Rightarrow> nat \<Rightarrow> bool" where
  "bitSet i j = (drop_bit j i AND 1 = 1)"

text \<open>
  One round of the loop \<open>for j := h - 2; j >= 0; j--\<close> that turns the bit pattern
  \<open>i\<close> into coefficient magnitudes; the state is the slice \<open>coeffMags\<close> (made with
  length \<open>h\<close>, all zero) and the slot counter \<open>k\<close>.
\<close>

fun decodeStep :: "int \<Rightarrow> int \<Rightarrow> int list \<times> nat \<Rightarrow> nat \<Rightarrow> int list \<times> nat" where
  "decodeStep ht i (coeffMags, k) j =
     (if bitSet i j then (coeffMags[k := coeffMags ! k + 1], k)
      else (if int (k + 1) < ht then coeffMags[k + 1 := 0] else coeffMags, k + 1))"

definition decode :: "int \<Rightarrow> int \<Rightarrow> int list \<times> nat" where
  "decode ht i = foldl (decodeStep ht i) (replicate (nat ht) 0, 0) (rev [0..<nat (ht - 1)])"

text \<open>The loop counting the non-zero magnitudes among slots \<open>0..order\<close>.\<close>

definition countNonZero :: "int list \<Rightarrow> nat \<Rightarrow> nat" where
  "countNonZero coeffMags ord = length (filter (\<lambda>j. coeffMags ! j \<noteq> 0) [0..<ord + 1])"

text \<open>
  One round of the loop \<open>for j := 0; j <= order; j++\<close> that builds the coefficient
  slice for one sign assignment; the state is the slice \<open>coeffs\<close> and \<open>signBit\<close>.
\<close>

fun signStep :: "int list \<Rightarrow> nat \<Rightarrow> int \<Rightarrow> complex list \<times> nat \<Rightarrow> nat \<Rightarrow> complex list \<times> nat" where
  "signStep coeffMags ord signs (cs, signBit) j =
     (if coeffMags ! j = 0 \<or> j = ord
      then (cs[j := Complex (of_int (coeffMags ! j)) 0], signBit)
      else (cs[j := Complex (of_int ((if bitSet signs signBit then - 1 else 1) * coeffMags ! j)) 0],
            signBit + 1))"

definition buildCoeffs :: "int list \<Rightarrow> nat \<Rightarrow> int \<Rightarrow> complex list" where
  "buildCoeffs coeffMags ord signs =
     fst (foldl (signStep coeffMags ord signs) (replicate (ord + 1) 0, 0) [0..<ord + 1])"

text \<open>The body of the loop over the bit patterns \<open>i\<close>: every work item sent for one pattern.\<close>

definition patternWork :: "int \<Rightarrow> int \<Rightarrow> PolyWork list" where
  "patternWork ht i =
     (case decode ht i of (coeffMags, k) \<Rightarrow>
        if k = 0 then []
        else map (\<lambda>signs. \<lparr>coeffs = buildCoeffs coeffMags k (int signs), h = ht,
                            order = int k, leadingCoeff = coeffMags ! k\<rparr>)
                 [0..<2 ^ (countNonZero coeffMags k - 1)])"

text \<open>
  The loop \<open>for i := (1 << (h - 1)) - 1; i >= 0; i -= 2\<close>. Go's int has 64 bits:
  the start value is computed in 64-bit two's complement, where the shift gives 0
  from a shift count of 64 on.
\<close>

definition startPattern :: "int \<Rightarrow> int" where
  "startPattern ht = sint (push_bit (nat (ht - 1)) (1 :: 64 word) - 1)"

function patternLoop :: "int \<Rightarrow> int \<Rightarrow> PolyWork list" where
  "patternLoop ht i = (if i \<ge> 0 then patternWork ht i @ patternLoop ht (i - 2) else [])"
  by pat_completeness auto
termination
  by (relation "measure (\<lambda>(ht, i). nat (i + 1))") auto

declare patternLoop.simps [simp del]

text \<open>
  The loop \<open>for h := 2; h <= maxHeight; h++\<close>: the sequence of work items sent on the
  work channel, in order. The counter \<open>h\<close> is taken as an unbounded integer.
\<close>

definition generateWork :: "int \<Rightarrow> PolyWork list" where
  "generateWork maxHeight = concat (map (\<lambda>ht. patternLoop ht (startPattern ht)) [2..maxHeight])"

section \<open>Root finder (findRootsInnerWithRand)\<close>

text \<open>
  complex128 is modelled by the complex numbers: rounding, infinities and NaN are outside
  the model. The parameters \<open>coeffs\<close> and \<open>order\<close> of the source are written \<open>cs\<close> and
  \<open>ord\<close>, and its variable \<open>root\<close> is written \<open>rt\<close>. A run-time panic is a value of type \<open>error\<close>. Go's complex division by zero
  does not panic (it yields an infinity or NaN); the model reports it as
  \<open>DivisionByZero\<close>, so that a result \<open>Inr\<close> says that no divisor was zero.
\<close>

datatype error = IndexOutOfRange | NegativeLength | DivisionByZero

text \<open>Reading \<open>xs[i]\<close>, writing \<open>xs[i] = v\<close> and \<open>make([]complex128, n)\<close>.\<close>

definition sliceAt :: "'a list \<Rightarrow> int \<Rightarrow> error + 'a" where
  "sliceAt xs i = (if 0 \<le> i \<and> i < int (length xs) then Inr (xs ! nat i) else Inl IndexOutOfRange)"

definition sliceSet :: "'a list \<Rightarrow> int \<Rightarrow> 'a \<Rightarrow> error + 'a list" where
  "sliceSet xs i v =
     (if 0 \<le> i \<and> i < int (length xs) then Inr (xs[nat i := v]) else Inl IndexOutOfRange)"

definition makeSlice :: "int \<Rightarrow> error + complex list" where
  "makeSlice n = (if n < 0 then Inl NegativeLength else Inr (replicate (nat n) 0))"

definition cdiv :: "complex \<Rightarrow> complex \<Rightarrow> error + complex" where
  "cdiv a b = (if b = 0 then Inl DivisionByZero else Inr (a / b))"

definition maxIters :: int where
  "maxIters = 5000"

definition tolerance :: real where
  "tolerance = 1 / 10 ^ 20"

text \<open>
  The random source \<open>rng\<close> is a state of an arbitrary type; \<open>nxt\<close> stands for
  \<open>rng.Float64()\<close>, which returns a number and advances the state. The expression
  \<open>complex(rng.Float64()*2-1, rng.Float64()*2-1)\<close> draws the real part first.
\<close>

definition randomPoint :: "('r \<Rightarrow> real \<times> 'r) \<Rightarrow> 'r \<Rightarrow> complex \<times> 'r" where
  "randomPoint nxt rng =
     (case nxt rng of (a, rng1) \<Rightarrow>
        case nxt rng1 of (b, rng2) \<Rightarrow> (Complex (a * 2 - 1) (b * 2 - 1), rng2))"

text \<open>The loop \<open>for i := order - 1; i >= 0; i--\<close> computing \<open>f\<close> and \<open>df\<close> by Horner's rule.\<close>

function hornerLoop :: "complex list \<Rightarrow> complex \<Rightarrow> int \<Rightarrow> complex \<Rightarrow> complex
    \<Rightarrow> error + complex \<times> complex" where
  "hornerLoop cs rt i f df =
     (if i \<ge> 0
      then (case sliceAt cs i of
              Inl e \<Rightarrow> Inl e
            | Inr c \<Rightarrow> hornerLoop cs rt (i - 1) (f * rt + c) (df * rt + f))
      else Inr (f, df))"
  by pat_completeness auto
termination
  by (relation "measure (\<lambda>(cs, rt, i, f, df). nat (i + 1))") auto

declare hornerLoop.simps [simp del]

definition evalPoly :: "complex list \<Rightarrow> int \<Rightarrow> complex \<Rightarrow> error + complex \<times> complex" where
  "evalPoly cs ord rt =
     (case sliceAt cs ord of
        Inl e \<Rightarrow> Inl e
      | Inr c \<Rightarrow> hornerLoop cs rt (ord - 1) c 0)"

text \<open>
  The loop \<open>for iter := 0; iter < maxIters; iter++\<close>. The result is the root appended
  to \<open>roots\<close> before \<open>break\<close>, if any, and the state of the random source. The
  counter \<open>iter\<close> is never negative, so Go's \<open>iter%500\<close> is \<open>iter mod 500\<close>.
\<close>

function newtonLoop :: "('r \<Rightarrow> real \<times> 'r) \<Rightarrow> complex list \<Rightarrow> int \<Rightarrow> int \<Rightarrow> complex \<Rightarrow> 'r
    \<Rightarrow> error + complex option \<times> 'r" where
  "newtonLoop nxt cs ord iter rt rng =
     (if iter < maxIters
      then (case evalPoly cs ord rt of
              Inl e \<Rightarrow> Inl e
            | Inr (f, df) \<Rightarrow>
                if cmod df < 1 / 10 ^ 15
                then (case randomPoint nxt rng of
                        (rt', rng') \<Rightarrow> newtonLoop nxt cs ord (iter + 1) rt' rng')
                else (case cdiv f df of
                        Inl e \<Rightarrow> Inl e
                      | Inr q \<Rightarrow>
                          if cmod ((rt - q) - rt) < tolerance
                          then Inr (Some (rt - q), rng)
                          else if iter mod 500 = 0 \<and> iter > 0
                          then (case randomPoint nxt rng of
                                  (rt', rng') \<Rightarrow> newtonLoop nxt cs ord (iter + 1) rt' rng')
                          else newtonLoop nxt cs ord (iter + 1) (rt - q) rng))
      else Inr (None, rng))"
  by pat_completeness auto
termination
  by (relation "measure (\<lambda>(nxt, cs, ord, iter, rt, rng). nat (maxIters - iter))") auto

declare newtonLoop.simps [simp del]

text \<open>
  Synthetic division by \<open>x - r\<close>: the slice \<open>newCoeffs\<close> of length \<open>order\<close> and the loop
  \<open>for i := order - 2; i >= 0; i--\<close> that fills it.
\<close>

function deflateLoop :: "complex list \<Rightarrow> complex \<Rightarrow> int \<Rightarrow> complex list \<Rightarrow> error + complex list" where
  "deflateLoop cs r i newCoeffs =
     (if i \<ge> 0
      then (case sliceAt cs (i + 1) of
              Inl e \<Rightarrow> Inl e
            | Inr c \<Rightarrow>
                (case sliceAt newCoeffs (i + 1) of
                   Inl e \<Rightarrow> Inl e
                 | Inr n \<Rightarrow>
                     (case sliceSet newCoeffs i (c + r * n) of
                        Inl e \<Rightarrow> Inl e
                      | Inr newCoeffs' \<Rightarrow> deflateLoop cs r (i - 1) newCoeffs')))
      else Inr newCoeffs)"
  by pat_completeness auto
termination
  by (relation "measure (\<lambda>(cs, r, i, newCoeffs). nat (i + 1))") auto

declare deflateLoop.simps [simp del]

definition deflate :: "complex list \<Rightarrow> int \<Rightarrow> complex \<Rightarrow> error + complex list" where
  "deflate cs ord r =
     (case makeSlice ord of
        Inl e \<Rightarrow> Inl e
      | Inr newCoeffs \<Rightarrow>
          (case sliceAt cs ord of
             Inl e \<Rightarrow> Inl e
           | Inr c \<Rightarrow>
               (case sliceSet newCoeffs (ord - 1) c of
                  Inl e \<Rightarrow> Inl e
                | Inr newCoeffs' \<Rightarrow> deflateLoop cs r (ord - 2) newCoeffs')))"

text \<open>
  The root finder. It returns the roots found and the state in which it leaves the random
  source.
\<close>

function findRootsInnerWithRand :: "('r \<Rightarrow> real \<times> 'r) \<Rightarrow> complex list \<Rightarrow> int \<Rightarrow> 'r
    \<Rightarrow> error + complex list \<times> 'r" where
  "findRootsInnerWithRand nxt cs ord rng =
     (if ord = 1
      then (case sliceAt cs 1 of
              Inl e \<Rightarrow> Inl e
            | Inr c1 \<Rightarrow>
                if c1 \<noteq> 0
                then (case sliceAt cs 0 of
                        Inl e \<Rightarrow> Inl e
                      | Inr c0 \<Rightarrow>
                          (case cdiv (- c0) c1 of
                             Inl e \<Rightarrow> Inl e
                           | Inr q \<Rightarrow> Inr ([q], rng)))
                else Inr ([], rng))
      else (case randomPoint nxt rng of
              (rt, rng1) \<Rightarrow>
                (case newtonLoop nxt cs ord 0 rt rng1 of
                   Inl e \<Rightarrow> Inl e
                 | Inr (None, rng2) \<Rightarrow> Inr ([], rng2)
                 | Inr (Some r, rng2) \<Rightarrow>
                     (case deflate cs ord r of
                        Inl e \<Rightarrow> Inl e
                      | Inr newCoeffs \<Rightarrow>
                          (case findRootsInnerWithRand nxt newCoeffs (ord - 1) rng2 of
                             Inl e \<Rightarrow> Inl e
                           | Inr (remaining, rng3) \<Rightarrow> Inr (r # remaining, rng3))))))"
  by pat_completeness auto
termination
proof (relation "measure (\<lambda>(nxt, cs, ord, rng). nat ord)")
  show "wf (measure (\<lambda>(nxt :: 'r \<Rightarrow> real \<times> 'r, cs :: complex list, ord :: int, rng :: 'r). nat ord))"
    by simp
next
  fix nxt :: "'r \<Rightarrow> real \<times> 'r" and cs :: "complex list" and ord :: int and rng :: 'r
    and r :: complex and rng2 :: 'r and newCoeffs :: "complex list"
  assume "ord \<noteq> 1" and "deflate cs ord r = Inr newCoeffs"
  then have "2 \<le> ord"
    by (auto simp add: deflate_def makeSlice_def sliceAt_def sliceSet_def
        split: if_splits sum.splits)
  then show "((nxt, newCoeffs, ord - 1, rng2), (nxt, cs, ord, rng))
      \<in> measure (\<lambda>(nxt, cs, ord, rng). nat ord)"
    by simp
qed

declare findRootsInnerWithRand.simps [simp del]

section \<open>Image accumulator (drawBlob, getColorForLeadingCoeff, renderImage)\<close>

text \<open>
  A float64 is modelled by the real number it stands for, and the result of every
  float64 operation is rounded to the nearest float64, ties to even, by \<open>toFloat64\<close>:
  53 significant bits, with the spacing \<open>2 ^ -1074\<close> below \<open>2 ^ -1022\<close>. Each operation
  is rounded on its own: the model has no fused multiply-add, which the Go specification
  allows a compiler to use for \<open>x + y * z\<close>. Infinities and NaN are outside the model.
  \<open>math.Sqrt\<close>, \<open>math.Exp\<close> and \<open>math.Pow\<close> are taken as the exact function followed by
  the rounding; of their values, the properties proved below use only \<open>sqrt 0 = 0\<close> and
  \<open>exp 0 = 1\<close>.
\<close>

definition roundHalfEven :: "real \<Rightarrow> int" where
  "roundHalfEven v =
     (let n = \<lfloor>v\<rfloor>
      in if v - of_int n < 1 / 2 then n
         else if v - of_int n > 1 / 2 then n + 1
         else if even n then n else n + 1)"

definition float64Exponent :: "real \<Rightarrow> int" where
  "float64Exponent v = max \<lfloor>log 2 \<bar>v\<bar>\<rfloor> (- 1022)"

definition toFloat64 :: "real \<Rightarrow> real" where
  "toFloat64 v =
     (if v = 0 then 0
      else of_int (roundHalfEven (v / 2 powi (float64Exponent v - 52)))
           * 2 powi (float64Exponent v - 52))"

text \<open>The field \<open>O\<close> of \<open>Point\<close> is written \<open>Ord\<close>.\<close>

record Point =
  Z :: complex
  H :: int
  Ord :: int
  LeadingCoeff :: int

record Config =
  Width :: int
  Height :: int
  XMin :: real
  YMin :: real
  XMax :: real
  YMax :: real
  MaxHeight :: int
  OutputFile :: string

text \<open>
  The part of Go's \<open>image\<close> and \<open>image/color\<close> packages that the program uses, after
  their documentation: a colour of four 8-bit channels, a rectangle, and an image of
  type \<open>image.RGBA\<close> as its bounds and the colour of every pixel. \<open>image.Rect\<close> swaps
  the coordinates where needed for a well-formed rectangle, \<open>image.NewRGBA\<close> gives an
  image whose channels are all 0, \<open>RGBAAt\<close> gives the zero colour outside the bounds,
  and \<open>SetRGBA\<close> and \<open>Set\<close> do nothing there.
\<close>

record RGBA =
  R :: "8 word"
  G :: "8 word"
  B :: "8 word"
  A :: "8 word"

record Rectangle =
  MinX :: int
  MinY :: int
  MaxX :: int
  MaxY :: int

record Image =
  bounds :: Rectangle
  pix :: "int \<times> int \<Rightarrow> RGBA"

definition Rect :: "int \<Rightarrow> int \<Rightarrow> int \<Rightarrow> int \<Rightarrow> Rectangle" where
  "Rect x0 y0 x1 y1 =
     \<lparr>MinX = (if x0 > x1 then x1 else x0), MinY = (if y0 > y1 then y1 else y0),
      MaxX = (if x0 > x1 then x0 else x1), MaxY = (if y0 > y1 then y0 else y1)\<rparr>"

definition NewRGBA :: "Rectangle \<Rightarrow> Image" where
  "NewRGBA r = \<lparr>bounds = r, pix = (\<lambda>p. \<lparr>R = 0, G = 0, B = 0, A = 0\<rparr>)\<rparr>"

definition inBounds :: "Image \<Rightarrow> int \<Rightarrow> int \<Rightarrow> bool" where
  "inBounds img x y \<longleftrightarrow>
     MinX (bounds img) \<le> x \<and> x < MaxX (bounds img) \<and> MinY (bounds img) \<le> y \<and> y < MaxY (bounds img)"

definition RGBAAt :: "Image \<Rightarrow> int \<Rightarrow> int \<Rightarrow> RGBA" where
  "RGBAAt img x y = (if inBounds img x y then pix img (x, y) else \<lparr>R = 0, G = 0, B = 0, A = 0\<rparr>)"

definition SetRGBA :: "Image \<Rightarrow> int \<Rightarrow> int \<Rightarrow> RGBA \<Rightarrow> Image" where
  "SetRGBA img x y c = (if inBounds img x y then img\<lparr>pix := (pix img)((x, y) := c)\<rparr> else img)"

text \<open>
  Go's conversion of a float64 to an integer type truncates towards zero; \<open>uint8(v)\<close> is
  applied by the program to values between 0 and 255 only.
\<close>

definition goInt :: "real \<Rightarrow> int" where
  "goInt v = (if 0 \<le> v then \<lfloor>v\<rfloor> else \<lceil>v\<rceil>)"

definition toUint8 :: "real \<Rightarrow> 8 word" where
  "toUint8 v = word_of_int (goInt v)"

text \<open>
  The Gaussian falloff of drawBlob. Where \<open>2 * sigma * sigma\<close> is 0 the quotient is an
  infinity or NaN in Go, and the test \<open>intensity > 0.005\<close> fails; the model gives the
  intensity 0 there.
\<close>

definition blobIntensity :: "real \<Rightarrow> int \<Rightarrow> int \<Rightarrow> real" where
  "blobIntensity radius dx dy =
     (let dist = toFloat64 (sqrt (toFloat64 (of_int (dx * dx + dy * dy))));
          sigma = toFloat64 (radius / 2.5);
          denom = toFloat64 (toFloat64 (2 * sigma) * sigma)
      in if denom = 0 then 0
         else toFloat64 (exp (toFloat64 (toFloat64 (- dist * dist) / denom))))"

text \<open>
  The additive blend of one channel, clamped at 255: the product and the sum are each
  rounded to a float64 before the conversion to uint8 truncates.
\<close>

definition blendChannel :: "8 word \<Rightarrow> 8 word \<Rightarrow> real \<Rightarrow> 8 word" where
  "blendChannel existing col intensity =
     (let new = toFloat64 (real (unat existing) + toFloat64 (real (unat col) * intensity))
      in toUint8 (if new > 255 then 255 else new))"

text \<open>The body of the two nested loops of drawBlob, for one offset \<open>(dx, dy)\<close>.\<close>

definition blobPixel :: "int \<Rightarrow> int \<Rightarrow> real \<Rightarrow> RGBA \<Rightarrow> int \<Rightarrow> Image \<Rightarrow> int \<Rightarrow> Image" where
  "blobPixel x y radius col dy img dx =
     (let px = x + dx; py = y + dy
      in if px < MinX (bounds img) \<or> px \<ge> MaxX (bounds img)
            \<or> py < MinY (bounds img) \<or> py \<ge> MaxY (bounds img)
         then img
         else let intensity = blobIntensity radius dx dy
              in if intensity > 0.005
                 then let existing = RGBAAt img px py
                      in SetRGBA img px py
                           \<lparr>R = blendChannel (R existing) (R col) intensity,
                            G = blendChannel (G existing) (G col) intensity,
                            B = blendChannel (B existing) (B col) intensity,
                            A = 255\<rparr>
                 else img)"

definition drawBlob :: "Image \<Rightarrow> int \<Rightarrow> int \<Rightarrow> real \<Rightarrow> RGBA \<Rightarrow> Image" where
  "drawBlob img x y radius col =
     (let r = goInt (toFloat64 (radius + 5))
      in foldl (\<lambda>img dy. foldl (blobPixel x y radius col dy) img [- r..r]) img [- r..r])"

definition getColorForLeadingCoeff :: "int \<Rightarrow> RGBA" where
  "getColorForLeadingCoeff coeff =
     (if coeff = 1 then \<lparr>R = 255, G = 0, B = 0, A = 255\<rparr>
      else if coeff = 2 then \<lparr>R = 0, G = 255, B = 0, A = 255\<rparr>
      else if coeff = 3 then \<lparr>R = 0, G = 0, B = 255, A = 255\<rparr>
      else if coeff = 4 then \<lparr>R = 255, G = 255, B = 0, A = 255\<rparr>
      else if coeff = 5 then \<lparr>R = 255, G = 0, B = 255, A = 255\<rparr>
      else if coeff = 6 then \<lparr>R = 0, G = 255, B = 255, A = 255\<rparr>
      else if coeff = 7 then \<lparr>R = 255, G = 128, B = 0, A = 255\<rparr>
      else if coeff = 8 then \<lparr>R = 128, G = 255, B = 0, A = 255\<rparr>
      else if coeff = 9 then \<lparr>R = 255, G = 0, B = 128, A = 255\<rparr>
      else if coeff = 10 then \<lparr>R = 128, G = 0, B = 255, A = 255\<rparr>
      else \<lparr>R = 255, G = 255, B = 255, A = 255\<rparr>)"

text \<open>The loops of renderImage that fill the background with black.\<close>

definition fillBlack :: "Image \<Rightarrow> Image" where
  "fillBlack img =
     foldl (\<lambda>img y. foldl (\<lambda>img x. SetRGBA img x y \<lparr>R = 0, G = 0, B = 0, A = 255\<rparr>) img
                        [MinX (bounds img)..MaxX (bounds img) - 1])
       img [MinY (bounds img)..MaxY (bounds img) - 1]"

text \<open>The test of renderImage that skips a point outside the viewport.\<close>

definition outsideViewport :: "Config \<Rightarrow> Point \<Rightarrow> bool" where
  "outsideViewport config point \<longleftrightarrow>
     Re (Z point) < XMin config \<or> Re (Z point) > XMax config
     \<or> Im (Z point) < YMin config \<or> Im (Z point) > YMax config"

text \<open>
  The screen coordinates and the blob radius that renderImage computes for a point. The
  program's main function refuses a viewport with \<open>XMin \<ge> XMax\<close> or \<open>YMin \<ge> YMax\<close>, so
  the two ranges are positive where renderImage is called.
\<close>

definition screenX :: "Config \<Rightarrow> Point \<Rightarrow> int" where
  "screenX config point =
     (let xRange = toFloat64 (XMax config - XMin config)
      in goInt (toFloat64 (toFloat64 (toFloat64 (Re (Z point) - XMin config) / xRange)
                           * toFloat64 (of_int (Width config)))))"

definition screenY :: "Config \<Rightarrow> Point \<Rightarrow> int" where
  "screenY config point =
     (let yRange = toFloat64 (YMax config - YMin config)
      in goInt (toFloat64 (toFloat64 (toFloat64 (YMax config - Im (Z point)) / yRange)
                           * toFloat64 (of_int (Height config)))))"

definition blobRadius :: "Config \<Rightarrow> Point \<Rightarrow> real" where
  "blobRadius config point =
     (let xRange = toFloat64 (XMax config - XMin config);
          k1 = toFloat64 (25.0 * toFloat64 (4.0 / xRange));
          k2 = 0.5;
          radius = toFloat64 (k1 * toFloat64 (k2 powr toFloat64 (of_int (H point - 3))));
          radius = (if radius < 3.0 then 3.0 else radius)
      in if radius > 80 then 80 else radius)"

text \<open>The body of the loop \<open>for _, point := range points\<close>.\<close>

definition drawPoint :: "Config \<Rightarrow> Image \<Rightarrow> Point \<Rightarrow> Image" where
  "drawPoint config img point =
     (if outsideViewport config point then img
      else drawBlob img (screenX config point) (screenY config point) (blobRadius config point)
             (getColorForLeadingCoeff (LeadingCoeff point)))"

text \<open>
  renderImage up to the point where it writes the file: the image that it hands to
  \<open>png.Encode\<close>.
\<close>

definition renderImage :: "Point list \<Rightarrow> Config \<Rightarrow> Image" where
  "renderImage points config =
     foldl (drawPoint config)
       (fillBlack (NewRGBA (Rect 0 0 (Width config) (Height config)))) points"

text \<open>The Config that main builds when no viewport is given on the command line.\<close>

definition mainConfig :: "int \<Rightarrow> Config" where
  "mainConfig maxHeight =
     \<lparr>Width = 1200, Height = 800, XMin = - 2.0, YMin = - 2.0, XMax = 2.0, YMax = 2.0,
      MaxHeight = maxHeight, OutputFile = ''algebraic_numbers.png''\<rparr>"

section \<open>Auxiliary notions for the enumerator\<close>

text \<open>
  The decoding loop read as a function on lists: the bits of the pattern, most significant
  first, are consumed one by one; a set bit adds one to the last magnitude, a clear bit
  opens a new slot holding 0.
\<close>

definition runStep :: "int list \<Rightarrow> bool \<Rightarrow> int list" where
  "runStep ms b = (if b then butlast ms @ [last ms + 1] else ms @ [0])"

definition runsOf :: "bool list \<Rightarrow> int list" where
  "runsOf bs = foldl runStep [0] bs"

text \<open>The state of the decoding loop that holds the magnitudes \<open>ms\<close> in a slice of length \<open>n\<close>.\<close>

definition padded :: "nat \<Rightarrow> int list \<Rightarrow> int list \<times> nat" where
  "padded n ms = (ms @ replicate (n - length ms) 0, length ms - 1)"

text \<open>Bits \<open>n - 1, \<dots>, 0\<close> of \<open>i\<close>, in the order in which the decoding loop reads them.\<close>

definition bitsOf :: "nat \<Rightarrow> int \<Rightarrow> bool list" where
  "bitsOf n i = map (bit i) (rev [0..<n])"

text \<open>The conversion \<open>complex(float64(n), 0)\<close>.\<close>

definition cplx :: "int \<Rightarrow> complex" where
  "cplx n = Complex (of_int n) 0"

text \<open>
  The signs given to the non-leading magnitudes by the sign pattern \<open>s\<close>: each non-zero
  magnitude takes the next bit of \<open>s\<close>, a zero magnitude takes none.
\<close>

fun signList :: "int list \<Rightarrow> int \<Rightarrow> int list" where
  "signList [] s = []"
| "signList (m # ms) s =
     (if m = 0 then 0 # signList ms s
      else (if odd s then - m else m) # signList ms (s div 2))"

definition cntNZ :: "int list \<Rightarrow> nat" where
  "cntNZ ms = length (filter (\<lambda>m. m \<noteq> 0) ms)"

text \<open>The work item built from the magnitudes \<open>ms\<close> and the sign pattern \<open>s\<close> at height \<open>ht\<close>.\<close>

definition mkWork :: "int \<Rightarrow> int list \<Rightarrow> int \<Rightarrow> PolyWork" where
  "mkWork ht ms s = \<lparr>coeffs = map cplx (signList (butlast ms) s @ [last ms]), h = ht,
                     order = int (length ms) - 1, leadingCoeff = last ms\<rparr>"

definition magsAt :: "int \<Rightarrow> int \<Rightarrow> int list" where
  "magsAt ht i = runsOf (bitsOf (nat (ht - 1)) i)"

text \<open>The magnitudes read back from a coefficient slice.\<close>

definition magsOf :: "complex list \<Rightarrow> int list" where
  "magsOf cs = map (\<lambda>c. \<bar>\<lfloor>Re c\<rfloor>\<bar>) cs"

text \<open>
  The specification's notion of a polynomial of height \<open>ht\<close>, in its words: degree at
  least 1, non-zero leading coefficient, and the absolute values of the integer
  coefficients (constant term first) sum to \<open>ht\<close>.
\<close>

definition specPolynomial :: "int \<Rightarrow> int list \<Rightarrow> bool" where
  "specPolynomial ht p \<longleftrightarrow> 2 \<le> length p \<and> last p \<noteq> 0 \<and> sum_list (map abs p) = ht"

text \<open>
  The polynomials the loop sends at height \<open>ht\<close>: degree at least 1, positive leading
  coefficient, and the absolute values of the coefficients plus the degree sum to
  \<open>ht - 1\<close>.
\<close>

definition codePolynomial :: "int \<Rightarrow> int list \<Rightarrow> bool" where
  "codePolynomial ht p \<longleftrightarrow>
     2 \<le> length p \<and> 0 < last p \<and> sum_list (map abs p) + (int (length p) - 1) = ht - 1"

section \<open>Auxiliary notions for the image accumulator\<close>

text \<open>
  Every colour channel of every pixel of the first image, read with \<open>RGBAAt\<close>, is at
  most the same channel in the second image; and every colour channel is at most 255.
\<close>

definition channelsLe :: "Image \<Rightarrow> Image \<Rightarrow> bool" where
  "channelsLe img img' \<longleftrightarrow>
     (\<forall>x y. R (RGBAAt img x y) \<le> R (RGBAAt img' x y) \<and> G (RGBAAt img x y) \<le> G (RGBAAt img' x y)
            \<and> B (RGBAAt img x y) \<le> B (RGBAAt img' x y))"

definition channelsBounded :: "Image \<Rightarrow> bool" where
  "channelsBounded img \<longleftrightarrow>
     (\<forall>x y. unat (R (RGBAAt img x y)) \<le> 255 \<and> unat (G (RGBAAt img x y)) \<le> 255
            \<and> unat (B (RGBAAt img x y)) \<le> 255)"



text \<open>
  A channel \<open>e'\<close> is the channel \<open>e\<close> plus \<open>a\<close>, saturating at 255, up to \<open>n\<close> units in
  excess. A pixel \<open>p'\<close> is the pixel \<open>p\<close> plus a contribution (one number per colour
  channel, or none), up to \<open>n\<close> units per channel; a contribution sets the alpha channel
  to 255, as drawBlob does, and no contribution leaves the pixel as it is.
\<close>

definition chanNear :: "8 word \<Rightarrow> nat \<Rightarrow> nat \<Rightarrow> 8 word \<Rightarrow> bool" where
  "chanNear e a n e' \<longleftrightarrow> min 255 (unat e + a) \<le> unat e' \<and> unat e' \<le> min 255 (unat e + a + n)"

fun nearPix :: "(nat \<times> nat \<times> nat) option \<Rightarrow> nat \<Rightarrow> RGBA \<Rightarrow> RGBA \<Rightarrow> bool" where
  "nearPix None n p p' \<longleftrightarrow> p' = p"
| "nearPix (Some (a, b, c)) n p p' \<longleftrightarrow>
     chanNear (R p) a n (R p') \<and> chanNear (G p) b n (G p') \<and> chanNear (B p) c n (B p') \<and> A p' = 255"

text \<open>The sum of two contributions.\<close>

fun cplus :: "(nat \<times> nat \<times> nat) option \<Rightarrow> (nat \<times> nat \<times> nat) option \<Rightarrow> (nat \<times> nat \<times> nat) option" where
  "cplus None y = y"
| "cplus x None = x"
| "cplus (Some (a, b, c)) (Some (a', b', c')) = Some (a + a', b + b', c + c')"

text \<open>
  An image transformation \<open>f\<close> blends as the contributions \<open>F\<close> with the slack \<open>S\<close> when
  it keeps the bounds and adds to every pixel \<open>q\<close> the contribution \<open>F b q\<close>, which
  depends on the bounds \<open>b\<close> and the position only and not on the colours already there,
  up to \<open>S q\<close> units per channel.
\<close>

definition blendsAs :: "(Image \<Rightarrow> Image) \<Rightarrow> (Rectangle \<Rightarrow> int \<times> int \<Rightarrow> (nat \<times> nat \<times> nat) option)
    \<Rightarrow> (int \<times> int \<Rightarrow> nat) \<Rightarrow> bool" where
  "blendsAs f F S \<longleftrightarrow>
     (\<forall>img. bounds (f img) = bounds img
        \<and> (\<forall>q. nearPix (F (bounds img) q) (S q) (pix img q) (pix (f img) q)))"

text \<open>
  The contributions of the loop body of drawBlob at the offset \<open>(dx, dy)\<close>, of a whole
  call of drawBlob and of the drawing of one point, and the slack of the loop body: one
  unit at the pixel it writes.
\<close>

definition chanContrib :: "8 word \<Rightarrow> real \<Rightarrow> nat" where
  "chanContrib col intensity = nat \<lfloor>toFloat64 (real (unat col) * intensity)\<rfloor>"

definition pixContrib :: "int \<Rightarrow> int \<Rightarrow> real \<Rightarrow> RGBA \<Rightarrow> int \<Rightarrow> int \<Rightarrow> Rectangle \<Rightarrow> int \<times> int
    \<Rightarrow> (nat \<times> nat \<times> nat) option" where
  "pixContrib x y radius col dy dx b q =
     (if q = (x + dx, y + dy) \<and> MinX b \<le> x + dx \<and> x + dx < MaxX b \<and> MinY b \<le> y + dy \<and> y + dy < MaxY b
         \<and> blobIntensity radius dx dy > 0.005
      then Some (chanContrib (R col) (blobIntensity radius dx dy),
                 chanContrib (G col) (blobIntensity radius dx dy),
                 chanContrib (B col) (blobIntensity radius dx dy))
      else None)"

definition pixSlack :: "int \<Rightarrow> int \<Rightarrow> int \<Rightarrow> int \<Rightarrow> int \<times> int \<Rightarrow> nat" where
  "pixSlack x y dy dx q = (if q = (x + dx, y + dy) then 1 else 0)"

definition blobContrib :: "int \<Rightarrow> int \<Rightarrow> real \<Rightarrow> RGBA \<Rightarrow> Rectangle \<Rightarrow> int \<times> int
    \<Rightarrow> (nat \<times> nat \<times> nat) option" where
  "blobContrib x y radius col b q =
     (let r = goInt (toFloat64 (radius + 5))
      in foldl cplus None
           (map (\<lambda>dy. foldl cplus None (map (\<lambda>dx. pixContrib x y radius col dy dx b q) [- r..r]))
              [- r..r]))"

definition pointContrib :: "Config \<Rightarrow> Point \<Rightarrow> Rectangle \<Rightarrow> int \<times> int \<Rightarrow> (nat \<times> nat \<times> nat) option" where
  "pointContrib config point b q =
     (if outsideViewport config point then None
      else blobContrib (screenX config point) (screenY config point) (blobRadius config point)
             (getColorForLeadingCoeff (LeadingCoeff point)) b q)"

section \<open>Properties of the enumerator\<close>

subsection \<open>The decoding loop computes run lengths\<close>

lemma bitSet_bit: "bitSet i j = bit i j"
  by (simp add: bitSet_def and_one_eq bit_iff_odd_drop_bit mod_2_eq_odd)

lemma runStep_nonempty: "ms \<noteq> [] \<Longrightarrow> runStep ms b \<noteq> []"
  by (simp add: runStep_def)

lemma runStep_length: "ms \<noteq> [] \<Longrightarrow> length (runStep ms b) = length ms + (if b then 0 else 1)"
  by (simp add: runStep_def)

lemma decodeStep_padded:
  assumes "ms \<noteq> []" and "length ms < n" and "n = nat ht"
  shows "decodeStep ht i (padded n ms) j = padded n (runStep ms (bitSet i j))"
proof (cases "bitSet i j")
  case True
  have "ms = butlast ms @ [last ms]" using assms(1) by simp
  then obtain us u where ms: "ms = us @ [u]" by blast
  show ?thesis using True assms(2)
    by (simp add: padded_def runStep_def ms list_update_append nth_append)
next
  case False
  have "replicate (n - length ms) (0::int) = 0 # replicate (n - length ms - 1) 0"
    using assms(2) by (cases "n - length ms") auto
  then show ?thesis using False assms
    by (auto simp add: padded_def runStep_def list_update_append nth_append)
qed

lemma foldl_runStep_nonempty: "ms \<noteq> [] \<Longrightarrow> foldl runStep ms bs \<noteq> []"
  by (induction bs arbitrary: ms) (simp_all add: runStep_nonempty)

lemma foldl_runStep_length_le: "ms \<noteq> [] \<Longrightarrow> length (foldl runStep ms bs) \<le> length ms + length bs"
proof (induction bs arbitrary: ms)
  case Nil then show ?case by simp
next
  case (Cons b bs)
  have "length (foldl runStep (runStep ms b) bs) \<le> length (runStep ms b) + length bs"
    using Cons.IH [OF runStep_nonempty [OF Cons.prems]] .
  then show ?case using runStep_length [OF Cons.prems, of b] by (simp split: if_splits)
qed

lemma foldl_decodeStep_padded:
  assumes "ms \<noteq> []" and "length ms + length js \<le> n" and "n = nat ht"
  shows "foldl (decodeStep ht i) (padded n ms) js = padded n (foldl runStep ms (map (bitSet i) js))"
  using assms
proof (induction js arbitrary: ms)
  case Nil then show ?case by simp
next
  case (Cons j js)
  have lt: "length ms < n" using Cons.prems by simp
  have step: "decodeStep ht i (padded n ms) j = padded n (runStep ms (bitSet i j))"
    using decodeStep_padded [OF Cons.prems(1) lt Cons.prems(3)] .
  have "length (runStep ms (bitSet i j)) + length js \<le> n"
    using runStep_length [OF Cons.prems(1), of "bitSet i j"] Cons.prems(2) by (simp split: if_splits)
  then show ?case
    using Cons.IH [OF runStep_nonempty [OF Cons.prems(1)] _ Cons.prems(3)] step by simp
qed

lemma decode_runsOf:
  assumes "2 \<le> ht"
  shows "decode ht i = padded (nat ht) (runsOf (bitsOf (nat (ht - 1)) i))"
proof -
  have init: "(replicate (nat ht) (0::int), 0::nat) = padded (nat ht) [0]"
    using assms by (cases "nat ht") (auto simp: padded_def)
  have bits: "map (bitSet i) (rev [0..<nat (ht - 1)]) = bitsOf (nat (ht - 1)) i"
    by (simp add: bitsOf_def bitSet_bit)
  have "foldl (decodeStep ht i) (padded (nat ht) [0]) (rev [0..<nat (ht - 1)])
        = padded (nat ht) (foldl runStep [0] (map (bitSet i) (rev [0..<nat (ht - 1)])))"
    by (rule foldl_decodeStep_padded) (use assms in auto)
  then show ?thesis
    by (simp add: decode_def init bits runsOf_def)
qed

subsection \<open>Run lengths: size, sum, and the bits they come from\<close>

lemma foldl_runStep_snoc: "foldl runStep ms (bs @ [b]) = runStep (foldl runStep ms bs) b"
  by simp

lemma runsOf_snoc: "runsOf (bs @ [b]) = runStep (runsOf bs) b"
  by (simp add: runsOf_def)

lemma runsOf_nonempty: "runsOf bs \<noteq> []"
  by (simp add: runsOf_def foldl_runStep_nonempty)

lemma runsOf_length: "length (runsOf bs) = Suc (length (filter Not bs))"
proof (induction bs rule: rev_induct)
  case Nil then show ?case by (simp add: runsOf_def)
next
  case (snoc b bs)
  then show ?case using runStep_length [OF runsOf_nonempty, of bs b]
    by (simp add: runsOf_snoc)
qed

lemma sum_list_runStep:
  "ms \<noteq> [] \<Longrightarrow> sum_list (runStep ms b) = sum_list ms + (if b then 1 else 0)"
proof -
  assume "ms \<noteq> []"
  then have "ms = butlast ms @ [last ms]" by simp
  then obtain us u where ms: "ms = us @ [u]" by blast
  show ?thesis by (simp add: runStep_def ms)
qed

lemma runsOf_sum: "sum_list (runsOf bs) = int (length (filter id bs))"
proof (induction bs rule: rev_induct)
  case Nil then show ?case by (simp add: runsOf_def)
next
  case (snoc b bs)
  then show ?case using sum_list_runStep [OF runsOf_nonempty, of bs b]
    by (simp add: runsOf_snoc)
qed

lemma runStep_nonneg:
  "ms \<noteq> [] \<Longrightarrow> \<forall>m\<in>set ms. 0 \<le> m \<Longrightarrow> \<forall>m\<in>set (runStep ms b). 0 \<le> m"
proof -
  assume ne: "ms \<noteq> []" and nn: "\<forall>m\<in>set ms. 0 \<le> m"
  from ne have "ms = butlast ms @ [last ms]" by simp
  then obtain us u where ms: "ms = us @ [u]" by blast
  show ?thesis using nn by (auto simp add: runStep_def ms)
qed

lemma runsOf_nonneg: "\<forall>m\<in>set (runsOf bs). 0 \<le> m"
proof (induction bs rule: rev_induct)
  case Nil then show ?case by (simp add: runsOf_def)
next
  case (snoc b bs)
  then show ?case using runStep_nonneg [OF runsOf_nonempty, of bs b]
    by (simp add: runsOf_snoc)
qed

lemma runsOf_last_pos: "bs \<noteq> [] \<Longrightarrow> last bs \<Longrightarrow> 1 \<le> last (runsOf bs)"
proof (induction bs rule: rev_induct)
  case Nil then show ?case by simp
next
  case (snoc b bs)
  have "0 \<le> last (runsOf bs)" using runsOf_nonneg [of bs] runsOf_nonempty [of bs] last_in_set by blast
  then show ?case using snoc.prems by (simp add: runsOf_snoc runStep_def)
qed

text \<open>Different bit lists have different run lengths, and every list of magnitudes is reached.\<close>

lemma runStep_inj:
  assumes "ms \<noteq> []" "ms' \<noteq> []" "\<forall>m\<in>set ms. 0 \<le> m" "\<forall>m\<in>set ms'. 0 \<le> m"
    and "runStep ms b = runStep ms' b'"
  shows "ms = ms' \<and> b = b'"
proof -
  from assms(1) have "ms = butlast ms @ [last ms]" by simp
  then obtain us u where ms: "ms = us @ [u]" by blast
  from assms(2) have "ms' = butlast ms' @ [last ms']" by simp
  then obtain us' u' where ms': "ms' = us' @ [u']" by blast
  have u: "0 \<le> u" "0 \<le> u'" using assms(3,4) by (simp_all add: ms ms')
  show ?thesis using assms(5) u
    by (cases b; cases b') (auto simp add: runStep_def ms ms')
qed

lemma runsOf_inj: "runsOf bs = runsOf bs' \<Longrightarrow> bs = bs'"
proof (induction bs arbitrary: bs' rule: rev_induct)
  case Nil
  show ?case
  proof (cases bs' rule: rev_cases)
    case Nil then show ?thesis by simp
  next
    case (snoc cs c)
    have "[0] = runStep (runsOf cs) c" using Nil by (simp add: snoc runsOf_snoc) (simp add: runsOf_def)
    moreover have "0 \<le> last (runsOf cs)" using runsOf_nonneg [of cs] runsOf_nonempty [of cs] last_in_set by blast
    ultimately show ?thesis using runsOf_nonempty [of cs]
      by (cases c) (auto simp add: runStep_def)
  qed
next
  case (snoc b bs)
  show ?case
  proof (cases bs' rule: rev_cases)
    case Nil
    have "[0] = runStep (runsOf bs) b" using snoc.prems by (simp add: Nil runsOf_snoc) (simp add: runsOf_def)
    moreover have "0 \<le> last (runsOf bs)" using runsOf_nonneg [of bs] runsOf_nonempty [of bs] last_in_set by blast
    ultimately show ?thesis using runsOf_nonempty [of bs]
      by (cases b) (auto simp add: runStep_def)
  next
    case (snoc cs c)
    have "runStep (runsOf bs) b = runStep (runsOf cs) c"
      using snoc.prems by (simp add: snoc runsOf_snoc)
    then have "runsOf bs = runsOf cs \<and> b = c"
      by (rule runStep_inj [OF runsOf_nonempty runsOf_nonempty runsOf_nonneg runsOf_nonneg])
    then show ?thesis using snoc.IH [of cs] by (simp add: snoc)
  qed
qed

lemma foldl_runStep_True:
  "ms \<noteq> [] \<Longrightarrow> foldl runStep ms (replicate n True) = butlast ms @ [last ms + int n]"
proof (induction n arbitrary: ms)
  case 0 then show ?case by simp
next
  case (Suc n)
  have "runStep ms True \<noteq> []" by (rule runStep_nonempty [OF Suc.prems])
  from Suc.IH [OF this] show ?case by (simp add: runStep_def)
qed

lemma runsOf_surj:
  "ms \<noteq> [] \<Longrightarrow> \<forall>m\<in>set ms. 0 \<le> m \<Longrightarrow> \<exists>bs. runsOf bs = ms"
proof (induction ms rule: rev_induct)
  case Nil then show ?case by simp
next
  case (snoc m ms)
  show ?case
  proof (cases "ms = []")
    case True
    have "runsOf (replicate (nat m) True) = [m]"
      using snoc.prems foldl_runStep_True [of "[0]" "nat m"] by (simp add: runsOf_def True)
    then show ?thesis using True by (intro exI [of _ "replicate (nat m) True"]) simp
  next
    case False
    then obtain bs where bs: "runsOf bs = ms" using snoc by auto
    have "runsOf (bs @ False # replicate (nat m) True) = foldl runStep (ms @ [0]) (replicate (nat m) True)"
      using bs by (simp add: runsOf_def runStep_def)
    also have "\<dots> = ms @ [m]"
      using snoc.prems foldl_runStep_True [of "ms @ [0]" "nat m"] by simp
    finally show ?thesis by blast
  qed
qed

subsection \<open>Bit patterns and bit lists\<close>

lemma bitsOf_length: "length (bitsOf n i) = n"
  by (simp add: bitsOf_def)

lemma bitsOf_inj:
  assumes "0 \<le> i" "i < 2 ^ n" "0 \<le> j" "j < 2 ^ n" "bitsOf n i = bitsOf n j"
  shows "i = j"
proof -
  have "\<forall>k<n. bit i k = bit j k"
  proof (intro allI impI)
    fix k assume "k < n"
    then have "k \<in> set (rev [0..<n])" by simp
    moreover have "\<forall>x\<in>set (rev [0..<n]). bit i x = bit j x"
      using assms(5) unfolding bitsOf_def by (simp only: map_eq_conv)
    ultimately show "bit i k = bit j k" by blast
  qed
  then have "take_bit n i = take_bit n j"
    by (auto simp add: bit_eq_iff bit_take_bit_iff)
  moreover have "take_bit n i = i" using assms(1,2) by (simp add: take_bit_int_eq_self)
  moreover have "take_bit n j = j" using assms(3,4) by (simp add: take_bit_int_eq_self)
  ultimately show ?thesis by simp
qed

lemma bitsOf_surj:
  "length bs = n \<Longrightarrow> \<exists>i::int. 0 \<le> i \<and> i < 2 ^ n \<and> bitsOf n i = bs"
proof (induction bs arbitrary: n rule: rev_induct)
  case Nil then show ?case by (auto simp: bitsOf_def)
next
  case (snoc b bs)
  then obtain m where n: "n = Suc m" and m: "length bs = m" by (cases n) auto
  from snoc.IH [OF m] obtain i :: int where i: "0 \<le> i" "i < 2 ^ m" "bitsOf m i = bs" by blast
  let ?j = "2 * i + of_bool b"
  have "bitsOf (Suc m) ?j = bitsOf m i @ [b]"
    unfolding bitsOf_def
    by (simp add: upt_conv_Cons [of 0 "Suc m"] bit_Suc bit_0 map_Suc_upt [symmetric] rev_map del: upt_Suc)
  moreover have "0 \<le> ?j" using i by simp
  moreover have "?j < 2 ^ Suc m" using i by (cases b) auto
  ultimately show ?case using i n by (intro exI [of _ ?j]) simp
qed

lemma bitsOf_last: "0 < n \<Longrightarrow> last (bitsOf n i) = odd i"
  by (simp add: bitsOf_def last_map last_rev bit_0)

subsection \<open>Sign patterns\<close>

lemma cntNZ_simps [simp]:
  "cntNZ [] = 0" "cntNZ (m # ms) = (if m = 0 then 0 else 1) + cntNZ ms"
  "cntNZ (ms @ ns) = cntNZ ms + cntNZ ns"
  by (simp_all add: cntNZ_def)

lemma cplx_inj: "cplx a = cplx b \<longleftrightarrow> a = b"
  by (simp add: cplx_def)

lemma signList_length [simp]: "length (signList ms s) = length ms"
  by (induction ms arbitrary: s) simp_all

lemma signList_abs: "map abs (signList ms s) = map abs ms"
  by (induction ms arbitrary: s) simp_all

lemma signList_snoc:
  "signList (ms @ [m]) s =
     signList ms s @ [if m = 0 then 0 else if bit s (cntNZ ms) then - m else m]"
proof (induction ms arbitrary: s)
  case Nil then show ?case by (simp add: bit_0)
next
  case (Cons a ms) then show ?case by (simp add: bit_Suc)
qed

lemma signList_inj:
  "0 \<le> s \<Longrightarrow> s < 2 ^ cntNZ ms \<Longrightarrow> 0 \<le> t \<Longrightarrow> t < 2 ^ cntNZ ms \<Longrightarrow>
   signList ms s = signList ms t \<Longrightarrow> s = t"
proof (induction ms arbitrary: s t)
  case Nil then show ?case by simp
next
  case (Cons m ms)
  show ?case
  proof (cases "m = 0")
    case True
    then show ?thesis using Cons.prems Cons.IH [of s t] by simp
  next
    case False
    have par: "odd s = odd t" using Cons.prems(5) False by (auto split: if_splits)
    have "s div 2 = t div 2"
      using Cons.prems False by (intro Cons.IH) (auto split: if_splits)
    then show ?thesis using par by presburger
  qed
qed

lemma signList_surj:
  "map abs cs = ms \<Longrightarrow> \<exists>s. 0 \<le> s \<and> s < 2 ^ cntNZ ms \<and> signList ms s = cs"
proof (induction cs arbitrary: ms)
  case Nil then show ?case by (intro exI [of _ 0]) auto
next
  case (Cons c cs)
  then obtain ms' where ms: "ms = \<bar>c\<bar> # ms'" and ms': "map abs cs = ms'" by auto
  from Cons.IH [OF ms'] obtain s where s: "0 \<le> s" "s < 2 ^ cntNZ ms'" "signList ms' s = cs" by blast
  show ?case
  proof (cases "c = 0")
    case True
    then show ?thesis using s ms by (intro exI [of _ s]) simp
  next
    case False
    let ?t = "2 * s + (if c < 0 then 1 else 0)"
    have "0 \<le> ?t" using s by simp
    moreover have "?t < 2 ^ cntNZ ms" using s False by (simp add: ms)
    moreover have "signList ms ?t = c # cs" using s False by (simp add: ms)
    ultimately show ?thesis by blast
  qed
qed

text \<open>The loop that builds the coefficient slice computes \<open>signList\<close>.\<close>

lemma signStep_inner:
  assumes "length xs = n" and "n < k"
  shows "signStep arr k s (xs @ replicate (Suc k - n) 0, c) n
         = (xs @ cplx (if arr ! n = 0 then 0 else if bit s c then - (arr ! n) else arr ! n)
                 # replicate (k - n) 0,
            if arr ! n = 0 then c else Suc c)"
proof -
  have rep: "replicate (Suc k - n) (0::complex) = 0 # replicate (k - n) 0"
    using assms(2) by (simp add: Suc_diff_le)
  have upd: "\<And>v. (xs @ replicate (Suc k - n) (0::complex))[n := v] = xs @ v # replicate (k - n) 0"
    using assms(1) by (simp add: rep list_update_append)
  show ?thesis using assms(2) by (simp add: upd bitSet_bit cplx_def)
qed

lemma signStep_leading:
  assumes "length xs = k"
  shows "signStep arr k s (xs @ [0], c) k = (xs @ [cplx (arr ! k)], c)"
  using assms by (simp add: list_update_append cplx_def)

lemma signStep_loop:
  assumes "k < length arr" and "n \<le> k"
  shows "foldl (signStep arr k s) (replicate (k + 1) 0, 0) [0..<n]
         = (map cplx (signList (take n arr) s) @ replicate (Suc k - n) 0, cntNZ (take n arr))"
  using assms(2)
proof (induction n)
  case 0 then show ?case by simp
next
  case (Suc n)
  define init :: "complex list \<times> nat" where "init = (replicate (k + 1) 0, 0)"
  define xs where "xs = map cplx (signList (take n arr) s)"
  have n: "n < k" "n < length arr" using Suc.prems assms(1) by simp_all
  have len: "length xs = n" using n by (simp add: xs_def)
  have IH: "foldl (signStep arr k s) init [0..<n] = (xs @ replicate (Suc k - n) 0, cntNZ (take n arr))"
    using Suc by (simp add: init_def xs_def)
  have "foldl (signStep arr k s) init [0..<Suc n]
        = signStep arr k s (xs @ replicate (Suc k - n) 0, cntNZ (take n arr)) n"
    by (simp add: IH del: signStep.simps)
  also have "\<dots> = (map cplx (signList (take (Suc n) arr) s) @ replicate (Suc k - Suc n) 0,
                     cntNZ (take (Suc n) arr))"
    unfolding signStep_inner [OF len n(1)]
    using n by (simp add: take_Suc_conv_app_nth signList_snoc xs_def)
  finally show ?case by (simp only: init_def)
qed

lemma buildCoeffs_eq:
  assumes "k < length arr"
  shows "buildCoeffs arr k s = map cplx (signList (take k arr) s @ [arr ! k])"
proof -
  define init :: "complex list \<times> nat" where "init = (replicate (k + 1) 0, 0)"
  define xs where "xs = map cplx (signList (take k arr) s)"
  have len: "length xs = k" using assms by (simp add: xs_def)
  have "foldl (signStep arr k s) init [0..<k] = (xs @ [0], cntNZ (take k arr))"
    using signStep_loop [OF assms order_refl, of s] by (simp add: init_def xs_def)
  then have "foldl (signStep arr k s) init [0..<k + 1] = (xs @ [cplx (arr ! k)], cntNZ (take k arr))"
    by (simp add: signStep_leading [OF len] del: signStep.simps)
  then show ?thesis
    by (simp add: buildCoeffs_def init_def xs_def)
qed

lemma countNonZero_eq:
  assumes "k < length arr"
  shows "countNonZero arr k = cntNZ (take (k + 1) arr)"
proof -
  have "take (Suc k) (map ((!) arr) [0..<length arr]) = map ((!) arr) [0..<Suc k]"
    using assms by (simp add: take_map del: upt_Suc)
  then have "take (Suc k) arr = map ((!) arr) [0..<Suc k]"
    by (simp only: map_nth)
  then show ?thesis
    by (simp add: countNonZero_def cntNZ_def filter_map comp_def del: upt_Suc)
qed

subsection \<open>The work items of one bit pattern\<close>

lemma patternWork_eq:
  assumes "2 \<le> ht"
  shows "patternWork ht i =
    (if length (magsAt ht i) = 1 then []
     else map (\<lambda>signs. mkWork ht (magsAt ht i) (int signs)) [0..<2 ^ (cntNZ (magsAt ht i) - 1)])"
proof -
  define ms where "ms = magsAt ht i"
  have ne: "ms \<noteq> []" by (simp add: ms_def magsAt_def runsOf_nonempty)
  have len: "length ms \<le> nat ht"
    using runsOf_length [of "bitsOf (nat (ht - 1)) i"] length_filter_le [of Not "bitsOf (nat (ht - 1)) i"] assms
    by (simp add: ms_def magsAt_def bitsOf_length)
  define arr where "arr = ms @ replicate (nat ht - length ms) 0"
  define k where "k = length ms - 1"
  have dec: "decode ht i = (arr, k)"
    using decode_runsOf [OF assms, of i] by (simp add: padded_def arr_def k_def ms_def magsAt_def)
  have k: "k < length arr" using ne len by (cases ms) (auto simp: arr_def k_def)
  have ms: "ms = butlast ms @ [last ms]" using ne by simp
  have t1: "take k arr = butlast ms" using ne by (simp add: arr_def k_def butlast_conv_take)
  have t2: "arr ! k = last ms" using ne by (simp add: arr_def k_def nth_append last_conv_nth)
  have t3: "take (Suc k) arr = ms" using ne by (cases ms) (auto simp add: arr_def k_def)
  have k0: "k = 0 \<longleftrightarrow> length ms = 1" using ne by (cases ms) (auto simp: k_def)
  have ord: "int k = int (length ms) - 1" using ne by (cases ms) (auto simp: k_def)
  show ?thesis
    unfolding patternWork_def dec ms_def [symmetric]
    by (simp add: k0 buildCoeffs_eq [OF k] countNonZero_eq [OF k] t1 t2 t3 mkWork_def ord del: upt_Suc)
qed

subsection \<open>The loop over the bit patterns\<close>

text \<open>
  Up to height 64 the loop starts at \<open>2 ^ (h - 1) - 1\<close>; from height 65 on the shift
  gives 0, the start value is \<open>- 1\<close> and the loop body never runs.
\<close>

lemma startPattern_small:
  assumes "2 \<le> ht" "ht \<le> 64"
  shows "startPattern ht = 2 ^ nat (ht - 1) - 1"
proof -
  define n where "n = nat (ht - 1)"
  have n: "n \<le> 63" using assms by (simp add: n_def)
  have w: "push_bit n (1 :: 64 word) - 1 = word_of_int (2 ^ n - 1)"
    by (simp add: push_bit_eq_mult)
  have "(2::int) ^ n \<le> 2 ^ 63" using n by (intro power_increasing) simp_all
  moreover have "(0::int) < 2 ^ n" by simp
  ultimately have "- (2 ^ 63) \<le> (2::int) ^ n - 1" "(2::int) ^ n - 1 < 2 ^ 63" by linarith+
  then have "signed_take_bit 63 ((2::int) ^ n - 1) = 2 ^ n - 1"
    by (rule signed_take_bit_int_eq_self)
  then have "sint (word_of_int (2 ^ n - 1) :: 64 word) = 2 ^ n - 1"
    by (simp only: sint_sbintrunc') simp
  then show ?thesis by (simp only: startPattern_def n_def [symmetric] w)
qed

lemma startPattern_big:
  assumes "65 \<le> ht"
  shows "startPattern ht = - 1"
proof -
  have eq: "push_bit (nat (ht - 1)) (1 :: 64 word) = 0"
    using assms by simp
  show ?thesis unfolding startPattern_def eq by simp
qed

lemma startPattern_bounds:
  assumes "2 \<le> ht"
  shows "startPattern ht < 2 ^ nat (ht - 1)" and "odd (startPattern ht)"
proof -
  have pos: "0 < nat (ht - 1)" using assms by simp
  show "startPattern ht < 2 ^ nat (ht - 1)"
  proof (cases "ht \<le> 64")
    case True then show ?thesis using startPattern_small [OF assms] by simp
  next
    case False
    have "(0::int) < 2 ^ nat (ht - 1)" by simp
    moreover have "startPattern ht = - 1" using False startPattern_big [of ht] by simp
    ultimately show ?thesis by linarith
  qed
  show "odd (startPattern ht)"
  proof (cases "ht \<le> 64")
    case True then show ?thesis using startPattern_small [OF assms] pos by simp
  next
    case False then show ?thesis using startPattern_big [of ht] by simp
  qed
qed

lemma patternLoop_set:
  "w \<in> set (patternLoop ht i) \<longleftrightarrow>
     (\<exists>t. 0 \<le> t \<and> t \<le> i \<and> even (i - t) \<and> w \<in> set (patternWork ht t))"
proof (induction ht i rule: patternLoop.induct)
  case (1 ht i)
  show ?case
  proof (cases "0 \<le> i")
    case False
    then show ?thesis by (simp add: patternLoop.simps [of ht i])
  next
    case True
    have "w \<in> set (patternLoop ht i) \<longleftrightarrow>
          w \<in> set (patternWork ht i) \<or> w \<in> set (patternLoop ht (i - 2))"
      using True by (simp add: patternLoop.simps [of ht i])
    also have "\<dots> \<longleftrightarrow> w \<in> set (patternWork ht i) \<or>
          (\<exists>t. 0 \<le> t \<and> t \<le> i - 2 \<and> even (i - 2 - t) \<and> w \<in> set (patternWork ht t))"
      using 1 [OF True] by simp
    also have "\<dots> \<longleftrightarrow> (\<exists>t. 0 \<le> t \<and> t \<le> i \<and> even (i - t) \<and> w \<in> set (patternWork ht t))"
    proof
      assume "w \<in> set (patternWork ht i) \<or>
          (\<exists>t. 0 \<le> t \<and> t \<le> i - 2 \<and> even (i - 2 - t) \<and> w \<in> set (patternWork ht t))"
      then show "\<exists>t. 0 \<le> t \<and> t \<le> i \<and> even (i - t) \<and> w \<in> set (patternWork ht t)"
      proof
        assume "w \<in> set (patternWork ht i)"
        then show ?thesis using True by (intro exI [of _ i]) simp
      next
        assume "\<exists>t. 0 \<le> t \<and> t \<le> i - 2 \<and> even (i - 2 - t) \<and> w \<in> set (patternWork ht t)"
        then obtain t where "0 \<le> t" "t \<le> i - 2" "even (i - 2 - t)" "w \<in> set (patternWork ht t)"
          by blast
        then show ?thesis by (intro exI [of _ t]) simp
      qed
    next
      assume "\<exists>t. 0 \<le> t \<and> t \<le> i \<and> even (i - t) \<and> w \<in> set (patternWork ht t)"
      then obtain t where t: "0 \<le> t" "t \<le> i" "even (i - t)" "w \<in> set (patternWork ht t)"
        by blast
      show "w \<in> set (patternWork ht i) \<or>
          (\<exists>t. 0 \<le> t \<and> t \<le> i - 2 \<and> even (i - 2 - t) \<and> w \<in> set (patternWork ht t))"
      proof (cases "t = i")
        case True then show ?thesis using t by simp
      next
        case False
        then have "t \<le> i - 2" using t by presburger
        then show ?thesis using t by (intro disjI2 exI [of _ t]) simp
      qed
    qed
    finally show ?thesis .
  qed
qed

subsection \<open>What a coefficient slice determines\<close>

lemma magsOf_cplx: "magsOf (map cplx xs) = map abs xs"
  by (simp add: magsOf_def cplx_def comp_def)

lemma magsAt_nonempty: "magsAt ht i \<noteq> []"
  by (simp add: magsAt_def runsOf_nonempty)

lemma magsAt_nonneg: "\<forall>m\<in>set (magsAt ht i). 0 \<le> m"
  by (simp add: magsAt_def runsOf_nonneg)

lemma magsAt_height:
  assumes "2 \<le> ht"
  shows "sum_list (magsAt ht i) + int (length (magsAt ht i)) = ht"
proof -
  define bs where "bs = bitsOf (nat (ht - 1)) i"
  have "length (filter id bs) + length (filter Not bs) = length bs"
    using sum_length_filter_compl [of id bs] by (simp add: comp_def)
  then have "int (length (filter id bs)) + int (length (filter Not bs)) = ht - 1"
    using assms by (simp add: bs_def bitsOf_length flip: of_nat_add)
  then show ?thesis
    by (simp add: magsAt_def runsOf_sum runsOf_length flip: bs_def)
qed

lemma magsAt_last:
  assumes "2 \<le> ht" "odd i"
  shows "1 \<le> last (magsAt ht i)"
proof -
  have pos: "0 < nat (ht - 1)" using assms by simp
  have "bitsOf (nat (ht - 1)) i \<noteq> []"
    using bitsOf_length [of "nat (ht - 1)" i] pos by auto
  moreover have "last (bitsOf (nat (ht - 1)) i)"
    using bitsOf_last [OF pos, of i] assms(2) by simp
  ultimately show ?thesis unfolding magsAt_def by (rule runsOf_last_pos)
qed

lemma magsAt_inj:
  assumes "0 \<le> i" "i < 2 ^ nat (ht - 1)" "0 \<le> j" "j < 2 ^ nat (ht - 1)"
    and "magsAt ht i = magsAt ht j"
  shows "i = j"
proof -
  have "bitsOf (nat (ht - 1)) i = bitsOf (nat (ht - 1)) j"
    using assms(5) unfolding magsAt_def by (rule runsOf_inj)
  then show ?thesis using assms(1-4) by (intro bitsOf_inj [of i "nat (ht - 1)" j])
qed

lemma mkWork_mags:
  assumes "ms \<noteq> []" "\<forall>m\<in>set ms. 0 \<le> m"
  shows "magsOf (coeffs (mkWork ht ms s)) = ms"
proof -
  have ms: "ms = butlast ms @ [last ms]" using assms(1) by simp
  have "map abs ms = ms" using assms(2) by (simp add: map_idI)
  moreover have "magsOf (coeffs (mkWork ht ms s)) = map abs (butlast ms @ [last ms])"
    by (simp add: mkWork_def magsOf_cplx del: map_append) (simp add: signList_abs)
  ultimately show ?thesis using ms by simp
qed

lemma patternWork_mem:
  assumes "2 \<le> ht" "w \<in> set (patternWork ht i)"
  shows "\<exists>s. s < 2 ^ (cntNZ (magsAt ht i) - 1) \<and> w = mkWork ht (magsAt ht i) (int s)"
    and "1 < length (magsAt ht i)"
proof -
  have ne: "length (magsAt ht i) \<noteq> 1"
    using assms(2) by (auto simp add: patternWork_eq [OF assms(1)] split: if_splits)
  then show "1 < length (magsAt ht i)"
    using magsAt_nonempty [of ht i] by (cases "magsAt ht i") auto
  show "\<exists>s. s < 2 ^ (cntNZ (magsAt ht i) - 1) \<and> w = mkWork ht (magsAt ht i) (int s)"
    using assms(2) ne by (auto simp add: patternWork_eq [OF assms(1)])
qed

lemma patternWork_mags:
  assumes "2 \<le> ht" "w \<in> set (patternWork ht i)"
  shows "magsOf (coeffs w) = magsAt ht i"
  using patternWork_mem(1) [OF assms] mkWork_mags [OF magsAt_nonempty magsAt_nonneg] by auto

subsection \<open>The list operations of the model stay in range\<close>

text \<open>
  In every round of the decoding loop the slot counter \<open>k\<close> is a valid index of
  \<open>coeffMags\<close>, and for every pattern the loop visits (an odd \<open>i\<close>) the count
  \<open>nonZero\<close> lies between 1 and \<open>h - 1\<close>, so the shift count \<open>nonZero - 1\<close> is not
  negative and, up to height 64, below 63.
\<close>

lemma decode_index_in_range:
  assumes "2 \<le> ht" and "n \<le> nat (ht - 1)"
  shows "snd (foldl (decodeStep ht i) (replicate (nat ht) 0, 0) (take n (rev [0..<nat (ht - 1)])))
         < nat ht"
proof -
  define js where "js = take n (rev [0..<nat (ht - 1)])"
  define ms where "ms = foldl runStep [0] (map (bitSet i) js)"
  have ljs: "length js = n" using assms(2) by (simp add: js_def)
  have init: "(replicate (nat ht) (0::int), 0::nat) = padded (nat ht) [0]"
    using assms(1) by (cases "nat ht") (auto simp: padded_def)
  have "foldl (decodeStep ht i) (padded (nat ht) [0]) js = padded (nat ht) ms"
    unfolding ms_def by (rule foldl_decodeStep_padded) (use assms ljs in auto)
  then have k: "snd (foldl (decodeStep ht i) (replicate (nat ht) 0, 0) js) = length ms - 1"
    by (simp add: init padded_def)
  have "ms \<noteq> []" unfolding ms_def by (rule foldl_runStep_nonempty) simp
  moreover have "length ms \<le> 1 + n"
    using foldl_runStep_length_le [of "[0]" "map (bitSet i) js"] ljs by (simp add: ms_def)
  ultimately have "length ms - 1 < nat ht" using assms by (cases ms) auto
  then show ?thesis using k by (simp add: js_def)
qed

lemma cntNZ_le_sum: "\<forall>m\<in>set ms. 0 \<le> m \<Longrightarrow> int (cntNZ ms) \<le> sum_list ms"
  by (induction ms) auto

lemma countNonZero_range:
  assumes "2 \<le> ht" and "odd i"
  shows "1 \<le> countNonZero (fst (decode ht i)) (snd (decode ht i))
         \<and> int (countNonZero (fst (decode ht i)) (snd (decode ht i))) \<le> ht - 1"
proof -
  define ms where "ms = magsAt ht i"
  have ne: "ms \<noteq> []" by (simp add: ms_def magsAt_nonempty)
  have hsum: "sum_list ms + int (length ms) = ht"
    unfolding ms_def by (rule magsAt_height [OF assms(1)])
  have "0 \<le> sum_list ms" using magsAt_nonneg [of ht i] by (simp add: ms_def sum_list_nonneg)
  then have len: "length ms \<le> nat ht" using hsum by linarith
  define arr where "arr = ms @ replicate (nat ht - length ms) 0"
  define k where "k = length ms - 1"
  have dec: "decode ht i = (arr, k)"
    using decode_runsOf [OF assms(1), of i] by (simp add: padded_def arr_def k_def ms_def magsAt_def)
  have k: "k < length arr" using ne len by (cases ms) (auto simp: arr_def k_def)
  have t3: "take (Suc k) arr = ms" using ne by (cases ms) (auto simp add: arr_def k_def)
  have "last ms \<noteq> 0" using magsAt_last [OF assms] by (simp add: ms_def)
  then have "last ms \<in> set (filter (\<lambda>m. m \<noteq> 0) ms)" using ne by simp
  then have "filter (\<lambda>m. m \<noteq> 0) ms \<noteq> []" by (metis empty_iff empty_set)
  then have lo: "1 \<le> cntNZ ms" by (cases "filter (\<lambda>m. m \<noteq> 0) ms") (simp_all add: cntNZ_def)
  have "int (cntNZ ms) \<le> sum_list ms"
    using magsAt_nonneg [of ht i] by (intro cntNZ_le_sum) (simp add: ms_def)
  moreover have "1 \<le> length ms" using ne by (cases ms) auto
  ultimately have hi: "int (cntNZ ms) \<le> ht - 1" using hsum by linarith
  show ?thesis using lo hi by (simp add: dec countNonZero_eq [OF k] t3)
qed

subsection \<open>No coefficient slice is sent twice\<close>

lemma distinct_concat_map:
  assumes "distinct xs"
    and "\<And>x. x \<in> set xs \<Longrightarrow> distinct (f x)"
    and "\<And>x y. x \<in> set xs \<Longrightarrow> y \<in> set xs \<Longrightarrow> x \<noteq> y \<Longrightarrow> set (f x) \<inter> set (f y) = {}"
  shows "distinct (concat (map f xs))"
  using assms
proof (induction xs)
  case Nil then show ?case by simp
next
  case (Cons x xs)
  have "distinct (concat (map f xs))"
    using Cons.prems by (intro Cons.IH) auto
  moreover have "distinct (f x)" using Cons.prems(2) by simp
  moreover have "set (f x) \<inter> set (concat (map f xs)) = {}"
  proof -
    have "\<And>y. y \<in> set xs \<Longrightarrow> set (f x) \<inter> set (f y) = {}"
      using Cons.prems(1,3) by auto
    then show ?thesis by auto
  qed
  ultimately show ?case by simp
qed

lemma cntNZ_butlast: "ms \<noteq> [] \<Longrightarrow> cntNZ ms - 1 \<le> cntNZ (butlast ms)"
proof -
  assume "ms \<noteq> []"
  then have "ms = butlast ms @ [last ms]" by simp
  then have "cntNZ ms = cntNZ (butlast ms) + cntNZ [last ms]"
    using cntNZ_simps(3) [of "butlast ms" "[last ms]"] by simp
  then show ?thesis by simp
qed

lemma cntNZ_butlast_eq: "ms \<noteq> [] \<Longrightarrow> last ms \<noteq> 0 \<Longrightarrow> cntNZ ms - 1 = cntNZ (butlast ms)"
proof -
  assume "ms \<noteq> []" and nz: "last ms \<noteq> 0"
  then have "ms = butlast ms @ [last ms]" by simp
  then have "cntNZ ms = cntNZ (butlast ms) + cntNZ [last ms]"
    using cntNZ_simps(3) [of "butlast ms" "[last ms]"] by simp
  then show ?thesis using nz by simp
qed

lemma mkWork_coeffs_inj:
  assumes "ms \<noteq> []" "s < 2 ^ (cntNZ ms - 1)" "t < 2 ^ (cntNZ ms - 1)"
    and "coeffs (mkWork ht ms (int s)) = coeffs (mkWork ht ms (int t))"
  shows "s = t"
proof -
  have "inj cplx" by (simp add: inj_def cplx_inj)
  then have "signList (butlast ms) (int s) @ [last ms] = signList (butlast ms) (int t) @ [last ms]"
    using assms(4) by (simp only: mkWork_def PolyWork.simps inj_map_eq_map)
  then have eq: "signList (butlast ms) (int s) = signList (butlast ms) (int t)" by simp
  have le: "(2::nat) ^ (cntNZ ms - 1) \<le> 2 ^ cntNZ (butlast ms)"
    using cntNZ_butlast [OF assms(1)] by (intro power_increasing) simp_all
  have "s < 2 ^ cntNZ (butlast ms)" "t < 2 ^ cntNZ (butlast ms)"
    using assms(2,3) le by linarith+
  then have "int s < int (2 ^ cntNZ (butlast ms))" "int t < int (2 ^ cntNZ (butlast ms))"
    by (simp_all only: of_nat_less_iff)
  then have "int s < 2 ^ cntNZ (butlast ms)" "int t < 2 ^ cntNZ (butlast ms)"
    by simp_all
  then have "int s = int t"
    using eq by (intro signList_inj [of "int s" "butlast ms" "int t"]) simp_all
  then show ?thesis by simp
qed

lemma patternWork_distinct:
  assumes "2 \<le> ht"
  shows "distinct (map coeffs (patternWork ht i))"
proof (cases "length (magsAt ht i) = 1")
  case True then show ?thesis by (simp add: patternWork_eq [OF assms])
next
  case False
  have "inj_on (\<lambda>s. coeffs (mkWork ht (magsAt ht i) (int s))) {0..<2 ^ (cntNZ (magsAt ht i) - 1)}"
    by (intro inj_onI mkWork_coeffs_inj [OF magsAt_nonempty, of _ ht i _ ht]) simp_all
  then show ?thesis using False
    by (simp add: patternWork_eq [OF assms] distinct_map comp_def)
qed

lemma patternWork_coeffs_disjoint:
  assumes "2 \<le> ht" "0 \<le> i" "i < 2 ^ nat (ht - 1)" "0 \<le> j" "j < 2 ^ nat (ht - 1)" "i \<noteq> j"
    and "w \<in> set (patternWork ht i)" "v \<in> set (patternWork ht j)"
  shows "coeffs w \<noteq> coeffs v"
proof
  assume "coeffs w = coeffs v"
  then have "magsAt ht i = magsAt ht j"
    using patternWork_mags [OF assms(1,7)] patternWork_mags [OF assms(1,8)] by simp
  then have "i = j" using assms(2-5) by (intro magsAt_inj [of i ht j])
  then show False using assms(6) by simp
qed

lemma patternLoop_distinct:
  "2 \<le> ht \<Longrightarrow> i < 2 ^ nat (ht - 1) \<Longrightarrow> distinct (map coeffs (patternLoop ht i))"
proof (induction ht i rule: patternLoop.induct)
  case (1 ht i)
  show ?case
  proof (cases "0 \<le> i")
    case False then show ?thesis by (simp add: patternLoop.simps [of ht i])
  next
    case True
    have d1: "distinct (map coeffs (patternWork ht i))"
      using "1.prems"(1) by (rule patternWork_distinct)
    have d2: "distinct (map coeffs (patternLoop ht (i - 2)))"
      using "1.IH" [OF True "1.prems"(1)] "1.prems"(2) by simp
    have d3: "set (map coeffs (patternWork ht i)) \<inter> set (map coeffs (patternLoop ht (i - 2))) = {}"
    proof (rule ccontr)
      assume "\<not> ?thesis"
      then obtain w v where w: "w \<in> set (patternWork ht i)"
        and v: "v \<in> set (patternLoop ht (i - 2))" and eq: "coeffs w = coeffs v"
        by auto
      from v obtain t where t: "0 \<le> t" "t \<le> i - 2" "v \<in> set (patternWork ht t)"
        unfolding patternLoop_set by blast
      have "coeffs w \<noteq> coeffs v"
        using "1.prems" True t w by (intro patternWork_coeffs_disjoint [of ht i t]) simp_all
      then show False using eq by simp
    qed
    show ?thesis
      using True d1 d2 d3 by (simp add: patternLoop.simps [of ht i])
  qed
qed

subsection \<open>The work items of generateAlgebraicNumbers\<close>

lemma generateWork_mem:
  "w \<in> set (generateWork maxHeight) \<longleftrightarrow>
     (\<exists>ht i. 2 \<le> ht \<and> ht \<le> maxHeight \<and> 0 \<le> i \<and> i \<le> startPattern ht \<and> odd i
              \<and> w \<in> set (patternWork ht i))"
proof
  assume "w \<in> set (generateWork maxHeight)"
  then obtain ht where ht: "2 \<le> ht" "ht \<le> maxHeight"
    and w: "w \<in> set (patternLoop ht (startPattern ht))"
    by (auto simp add: generateWork_def)
  from w obtain i where i: "0 \<le> i" "i \<le> startPattern ht" "even (startPattern ht - i)"
    "w \<in> set (patternWork ht i)"
    unfolding patternLoop_set by blast
  have "odd i" using i(3) startPattern_bounds(2) [OF ht(1)] by simp
  then show "\<exists>ht i. 2 \<le> ht \<and> ht \<le> maxHeight \<and> 0 \<le> i \<and> i \<le> startPattern ht \<and> odd i
              \<and> w \<in> set (patternWork ht i)"
    using ht i by blast
next
  assume "\<exists>ht i. 2 \<le> ht \<and> ht \<le> maxHeight \<and> 0 \<le> i \<and> i \<le> startPattern ht \<and> odd i
              \<and> w \<in> set (patternWork ht i)"
  then obtain ht i where ht: "2 \<le> ht" "ht \<le> maxHeight"
    and i: "0 \<le> i" "i \<le> startPattern ht" "odd i" "w \<in> set (patternWork ht i)"
    by blast
  have "even (startPattern ht - i)" using i(3) startPattern_bounds(2) [OF ht(1)] by simp
  then have "w \<in> set (patternLoop ht (startPattern ht))"
    unfolding patternLoop_set using i by blast
  then show "w \<in> set (generateWork maxHeight)"
    using ht by (auto simp add: generateWork_def)
qed

lemma cmod_cplx: "cmod (cplx n) = of_int \<bar>n\<bar>"
  by (simp add: cplx_def cmod_def)

lemma sum_cmod_cplx: "(\<Sum>c\<leftarrow>map cplx xs. cmod c) = of_int (sum_list (map abs xs))"
  by (induction xs) (simp_all add: cmod_cplx)

lemma mkWork_sum:
  assumes "ms \<noteq> []" "\<forall>m\<in>set ms. 0 \<le> m"
  shows "(\<Sum>c\<leftarrow>coeffs (mkWork ht ms s). cmod c) = of_int (sum_list ms)"
proof -
  have "coeffs (mkWork ht ms s) = map cplx (signList (butlast ms) s @ [last ms])"
    by (simp add: mkWork_def)
  moreover have "map abs (signList (butlast ms) s @ [last ms]) = map abs (butlast ms @ [last ms])"
    by (simp add: signList_abs)
  moreover have "map abs ms = ms" using assms(2) by (simp add: map_idI)
  ultimately have "(\<Sum>c\<leftarrow>coeffs (mkWork ht ms s). cmod c)
      = of_int (sum_list (map abs (butlast ms @ [last ms])))"
    by (simp only: sum_cmod_cplx)
  also have "butlast ms @ [last ms] = ms" using assms(1) by simp
  also have "map abs ms = ms" using assms(2) by (simp add: map_idI)
  finally show ?thesis .
qed

text \<open>
  Claim C9. Every work item sent at loop height \<open>h\<close> satisfies: the sum of the absolute
  values of its coefficients plus its degree equals \<open>h - 1\<close>, so the tag \<open>h\<close> is one
  more than the magnitude sum plus the degree; the tag lies between 2 and \<open>maxHeight\<close>.
\<close>

theorem emitted_height_tag:
  "\<forall>w\<in>set (generateWork maxHeight).
     (\<Sum>c\<leftarrow>coeffs w. cmod c) + of_int (order w) = of_int (h w) - 1
     \<and> 2 \<le> h w \<and> h w \<le> maxHeight"
proof
  fix w assume "w \<in> set (generateWork maxHeight)"
  then obtain ht i where ht: "2 \<le> ht" "ht \<le> maxHeight"
    and w: "w \<in> set (patternWork ht i)"
    unfolding generateWork_mem by blast
  from patternWork_mem(1) [OF ht(1) w] obtain s where s: "w = mkWork ht (magsAt ht i) (int s)"
    by blast
  have "(\<Sum>c\<leftarrow>coeffs w. cmod c) = of_int (sum_list (magsAt ht i))"
    unfolding s by (rule mkWork_sum [OF magsAt_nonempty magsAt_nonneg])
  moreover have "order w = int (length (magsAt ht i)) - 1" "h w = ht"
    by (simp_all add: s mkWork_def)
  moreover have "real_of_int (sum_list (magsAt ht i)) + real_of_int (int (length (magsAt ht i))) = real_of_int ht"
    using magsAt_height [OF ht(1), of i] by (simp only: flip: of_int_add)
  ultimately show "(\<Sum>c\<leftarrow>coeffs w. cmod c) + of_int (order w) = of_int (h w) - 1
     \<and> 2 \<le> h w \<and> h w \<le> maxHeight"
    using ht by simp
qed

theorem emitted_height_tag_witness:
  "length (generateWork 4) = 5
   \<and> list_all (\<lambda>w. (\<Sum>c\<leftarrow>coeffs w. cmod c) + of_int (order w) = of_int (h w) - 1)
        (generateWork 4)"
proof -
  have "length (generateWork 4) = 5" by code_simp
  then show ?thesis using emitted_height_tag [of 4] by (simp add: list_all_iff)
qed

lemma generateWork_distinct: "distinct (map coeffs (generateWork maxHeight))"
proof -
  have eq: "map coeffs (generateWork maxHeight)
        = concat (map (\<lambda>ht. map coeffs (patternLoop ht (startPattern ht))) [2..maxHeight])"
    by (simp add: generateWork_def map_concat comp_def)
  show ?thesis unfolding eq
  proof (rule distinct_concat_map)
    show "distinct [2..maxHeight]" by simp
  next
    fix ht assume "ht \<in> set [2..maxHeight]"
    then have "2 \<le> ht" by simp
    then show "distinct (map coeffs (patternLoop ht (startPattern ht)))"
      using startPattern_bounds(1) [of ht] by (intro patternLoop_distinct)
  next
    fix ht ht' assume a: "ht \<in> set [2..maxHeight]" "ht' \<in> set [2..maxHeight]" "ht \<noteq> ht'"
    show "set (map coeffs (patternLoop ht (startPattern ht)))
          \<inter> set (map coeffs (patternLoop ht' (startPattern ht'))) = {}"
    proof (rule ccontr)
      assume "\<not> ?thesis"
      then obtain w v where w: "w \<in> set (patternLoop ht (startPattern ht))"
        and v: "v \<in> set (patternLoop ht' (startPattern ht'))" and eq: "coeffs w = coeffs v"
        by auto
      from w obtain i where i: "w \<in> set (patternWork ht i)" unfolding patternLoop_set by blast
      from v obtain j where j: "v \<in> set (patternWork ht' j)" unfolding patternLoop_set by blast
      have ht: "2 \<le> ht" "2 \<le> ht'" using a by simp_all
      have "magsAt ht i = magsAt ht' j"
        using patternWork_mags [OF ht(1) i] patternWork_mags [OF ht(2) j] eq by simp
      then have "ht = ht'"
        using magsAt_height [OF ht(1), of i] magsAt_height [OF ht(2), of j] by simp
      then show False using a(3) by simp
    qed
  qed
qed

text \<open>
  Claim C1. For every \<open>maxHeight \<ge> 2\<close>, no work item sent has leading coefficient
  magnitude 0, none has degree 0 (the coefficient slice has \<open>order + 1\<close> entries and ends
  with the leading coefficient), and no two work items sent have the same coefficient
  slice, across all heights and sign patterns.
\<close>

theorem enumerator_sound:
  assumes "2 \<le> maxHeight"
  shows "(\<forall>w\<in>set (generateWork maxHeight).
            1 \<le> leadingCoeff w \<and> 1 \<le> order w
            \<and> int (length (coeffs w)) = order w + 1
            \<and> last (coeffs w) = of_int (leadingCoeff w))
         \<and> distinct (map coeffs (generateWork maxHeight))"
proof (intro conjI ballI)
  fix w assume "w \<in> set (generateWork maxHeight)"
  then obtain ht i where ht: "2 \<le> ht" and i: "odd i"
    and w: "w \<in> set (patternWork ht i)"
    unfolding generateWork_mem by blast
  from patternWork_mem [OF ht w] obtain s where s: "w = mkWork ht (magsAt ht i) (int s)"
    and len: "1 < length (magsAt ht i)"
    by blast
  show "1 \<le> leadingCoeff w" using magsAt_last [OF ht i] by (simp add: s mkWork_def)
  show "1 \<le> order w" using len by (simp add: s mkWork_def)
  show "int (length (coeffs w)) = order w + 1" using len by (simp add: s mkWork_def)
  show "last (coeffs w) = of_int (leadingCoeff w)"
    by (simp add: s mkWork_def cplx_def complex_eq_iff)
next
  show "distinct (map coeffs (generateWork maxHeight))" by (rule generateWork_distinct)
qed

theorem enumerator_sound_witness:
  "(2::int) \<le> 4 \<and> length (generateWork 4) = 5 \<and> distinct (map coeffs (generateWork 4))
   \<and> list_all (\<lambda>w. 1 \<le> leadingCoeff w \<and> 1 \<le> order w) (generateWork 4)"
proof -
  have "length (generateWork 4) = 5" by code_simp
  then show ?thesis using enumerator_sound [of 4] by (simp add: list_all_iff)
qed

subsection \<open>The polynomials sent, exactly\<close>

lemma runsOf_last_True:
  assumes "0 < last (runsOf bs)"
  shows "bs \<noteq> [] \<and> last bs"
proof (cases bs rule: rev_cases)
  case Nil then show ?thesis using assms by (simp add: runsOf_def)
next
  case (snoc cs c)
  then show ?thesis using assms by (cases c) (simp_all add: runsOf_snoc runStep_def)
qed

lemma emitted_complete:
  assumes ht: "2 \<le> ht" "ht \<le> 64" and p: "codePolynomial ht p"
  shows "\<exists>w\<in>set (patternLoop ht (startPattern ht)). coeffs w = map cplx p \<and> h w = ht"
proof -
  define ms where "ms = map abs p"
  have len: "2 \<le> length p" and lastp: "0 < last p"
    and sum: "sum_list ms + int (length p) = ht"
    using p by (simp_all add: codePolynomial_def ms_def)
  have pne: "p \<noteq> []" using len by auto
  have ne: "ms \<noteq> []" and nn: "\<forall>m\<in>set ms. 0 \<le> m" using pne by (auto simp: ms_def)
  have lastms: "last ms = last p" using pne lastp by (simp add: ms_def last_map)
  from runsOf_surj [OF ne nn] obtain bs where bs: "runsOf bs = ms" by blast
  have "int (length (filter id bs)) + int (Suc (length (filter Not bs))) = ht"
    using sum by (simp add: runsOf_sum [symmetric] runsOf_length [symmetric] bs ms_def)
  moreover have "length (filter id bs) + length (filter Not bs) = length bs"
    using sum_length_filter_compl [of id bs] by (simp add: comp_def)
  ultimately have lbs: "length bs = nat (ht - 1)" by linarith
  from bitsOf_surj [OF lbs] obtain i :: int where i: "0 \<le> i" "i < 2 ^ nat (ht - 1)"
    and bits: "bitsOf (nat (ht - 1)) i = bs" by blast
  have mags: "magsAt ht i = ms" by (simp add: magsAt_def bits bs)
  have "bs \<noteq> [] \<and> last bs" using lastp lastms by (intro runsOf_last_True) (simp add: bs)
  then have odd: "odd i" using bitsOf_last [of "nat (ht - 1)" i] ht(1) by (simp add: bits)
  have start: "startPattern ht = 2 ^ nat (ht - 1) - 1" by (rule startPattern_small [OF ht])
  have "0 < nat (ht - 1)" using ht by simp
  then have "even (startPattern ht - i)" using odd by (simp add: start)
  moreover have "i \<le> startPattern ht" using i by (simp add: start)
  ultimately have sub: "set (patternWork ht i) \<subseteq> set (patternLoop ht (startPattern ht))"
    using i(1) by (auto simp add: patternLoop_set)
  have "map abs (butlast p) = butlast ms" by (simp add: ms_def map_butlast)
  from signList_surj [OF this] obtain s where s: "0 \<le> s" "s < 2 ^ cntNZ (butlast ms)"
    and sl: "signList (butlast ms) s = butlast p" by blast
  have cnt: "cntNZ ms - 1 = cntNZ (butlast ms)"
    using lastp lastms by (intro cntNZ_butlast_eq [OF ne]) simp
  define n where "n = nat s"
  have ns: "int n = s" using s(1) by (simp add: n_def)
  have "int n < int (2 ^ cntNZ (butlast ms))" using s(2) by (simp add: ns)
  then have sn: "n < 2 ^ (cntNZ ms - 1)" unfolding cnt by (simp only: of_nat_less_iff)
  have lms: "length ms \<noteq> 1" using len by (simp add: ms_def)
  have "mkWork ht ms (int n) \<in> set (patternWork ht i)"
    using sn lms by (simp add: patternWork_eq [OF ht(1)] mags)
  moreover have "coeffs (mkWork ht ms (int n)) = map cplx p"
    using pne by (simp add: mkWork_def ns sl lastms flip: map_append)
  moreover have "h (mkWork ht ms (int n)) = ht" by (simp add: mkWork_def)
  ultimately show ?thesis using sub by blast
qed

lemma emitted_sound:
  assumes "w \<in> set (generateWork maxHeight)"
  shows "\<exists>p. coeffs w = map cplx p \<and> codePolynomial (h w) p \<and> 2 \<le> h w \<and> h w \<le> maxHeight"
proof -
  from assms obtain ht i where ht: "2 \<le> ht" "ht \<le> maxHeight" and i: "odd i"
    and w: "w \<in> set (patternWork ht i)"
    unfolding generateWork_mem by blast
  define ms where "ms = magsAt ht i"
  from patternWork_mem [OF ht(1) w] obtain s where s: "w = mkWork ht ms (int s)"
    and len: "1 < length ms"
    unfolding ms_def by blast
  define p where "p = signList (butlast ms) (int s) @ [last ms]"
  have ne: "ms \<noteq> []" using len by auto
  have nn: "\<forall>m\<in>set ms. 0 \<le> m" unfolding ms_def by (rule magsAt_nonneg)
  have "map abs p = map abs (butlast ms @ [last ms])" by (simp add: p_def signList_abs)
  also have "\<dots> = ms" using ne nn by (simp add: map_idI)
  finally have abs: "map abs p = ms" .
  have "length p = length ms" using abs by (metis length_map)
  moreover have "last p = last ms" by (simp add: p_def)
  moreover have "1 \<le> last ms" unfolding ms_def by (rule magsAt_last [OF ht(1) i])
  moreover have "sum_list ms + int (length ms) = ht"
    unfolding ms_def by (rule magsAt_height [OF ht(1)])
  ultimately have "codePolynomial ht p" using len by (simp add: codePolynomial_def abs)
  moreover have "coeffs w = map cplx p" "h w = ht" by (simp_all add: s mkWork_def p_def)
  ultimately show ?thesis using ht by blast
qed

text \<open>
  Claim C2, as amended. For every \<open>maxHeight\<close> from 2 to 64, the work items sent, each
  with its tag \<open>h\<close>, are exactly the integer polynomials of degree at least 1 with
  positive leading coefficient whose absolute coefficient values plus degree sum to
  \<open>h - 1\<close>, for the heights \<open>2 \<le> h \<le> maxHeight\<close>; for height 2 nothing is sent.
\<close>

theorem enumerator_exact:
  assumes "2 \<le> maxHeight" and "maxHeight \<le> 64"
  shows "set (map (\<lambda>w. (h w, coeffs w)) (generateWork maxHeight))
           = {(ht, map cplx p) | ht p. 2 \<le> ht \<and> ht \<le> maxHeight \<and> codePolynomial ht p}
         \<and> generateWork 2 = []"
proof
  show "set (map (\<lambda>w. (h w, coeffs w)) (generateWork maxHeight))
         = {(ht, map cplx p) | ht p. 2 \<le> ht \<and> ht \<le> maxHeight \<and> codePolynomial ht p}"
    (is "?L = ?R")
  proof (intro set_eqI iffI)
    fix x assume "x \<in> ?L"
    then obtain w where w: "w \<in> set (generateWork maxHeight)" and x: "x = (h w, coeffs w)"
      by auto
    from emitted_sound [OF w] show "x \<in> ?R" unfolding x by blast
  next
    fix x assume "x \<in> ?R"
    then obtain ht p where x: "x = (ht, map cplx p)" and ht: "2 \<le> ht" "ht \<le> maxHeight"
      and p: "codePolynomial ht p" by blast
    have "ht \<le> 64" using ht assms by simp
    from emitted_complete [OF ht(1) this p] obtain w
      where w: "w \<in> set (patternLoop ht (startPattern ht))" "coeffs w = map cplx p" "h w = ht"
      by blast
    have "w \<in> set (generateWork maxHeight)" using w(1) ht by (auto simp add: generateWork_def)
    then show "x \<in> ?L" unfolding x using w(2,3) by force
  qed
  show "generateWork 2 = []" by code_simp
qed

theorem enumerator_exact_witness:
  "(2::int) \<le> 3 \<and> (3::int) \<le> 64
   \<and> set (map (\<lambda>w. (h w, coeffs w)) (generateWork 3))
       = {(ht, map cplx p) | ht p. 2 \<le> ht \<and> ht \<le> 3 \<and> codePolynomial ht p}
   \<and> map (\<lambda>w. (h w, coeffs w)) (generateWork 3) = [(3, map cplx [0, 1])]"
proof -
  have "map (\<lambda>w. (h w, coeffs w)) (generateWork 3) = [(3, map cplx [0, 1])]" by code_simp
  then show ?thesis using enumerator_exact [of 3] by simp
qed

text \<open>
  Claim C2 as stated fails. The polynomial \<open>1 + x\<close> has degree 1, a non-zero leading
  coefficient and coefficient magnitudes summing to 2, yet nothing is sent for
  \<open>maxHeight = 2\<close>; and \<open>1 - x\<close>, of the same kind, is not sent up to height 4, where
  its mirror image \<open>-1 + x\<close> is.
\<close>

theorem spec_height_counterexample:
  "specPolynomial 2 [1, 1] \<and> map cplx [1, 1] \<notin> set (map coeffs (generateWork 2))
   \<and> specPolynomial 2 [1, - 1] \<and> map cplx [1, - 1] \<notin> set (map coeffs (generateWork 4))
   \<and> map cplx [- 1, 1] \<in> set (map coeffs (generateWork 4))"
proof -
  have "generateWork 2 = []" by code_simp
  moreover have "map cplx [1, - 1] \<notin> set (map coeffs (generateWork 4))" by code_simp
  moreover have "map cplx [- 1, 1] \<in> set (map coeffs (generateWork 4))" by code_simp
  ultimately show ?thesis by (simp add: specPolynomial_def)
qed

section \<open>Properties of the root finder\<close>

subsection \<open>The root finder returns\<close>

lemma hornerLoop_ok:
  "i < int (length cs) \<Longrightarrow> \<exists>f' df'. hornerLoop cs rt i f df = Inr (f', df')"
proof (induction cs rt i f df rule: hornerLoop.induct)
  case (1 cs rt i f df)
  show ?case
  proof (cases "0 \<le> i")
    case False then show ?thesis by (simp add: hornerLoop.simps [of cs rt i])
  next
    case True
    have at: "sliceAt cs i = Inr (cs ! nat i)" using True "1.prems" by (simp add: sliceAt_def)
    have "\<exists>f' df'. hornerLoop cs rt (i - 1) (f * rt + cs ! nat i) (df * rt + f) = Inr (f', df')"
      using "1.IH" [OF True at] "1.prems" by simp
    then show ?thesis using True by (simp add: hornerLoop.simps [of cs rt i] at)
  qed
qed

lemma evalPoly_ok:
  assumes "0 \<le> ord" "ord < int (length cs)"
  shows "\<exists>f df. evalPoly cs ord rt = Inr (f, df)"
proof -
  have "sliceAt cs ord = Inr (cs ! nat ord)" using assms by (simp add: sliceAt_def)
  moreover have "\<exists>f df. hornerLoop cs rt (ord - 1) (cs ! nat ord) 0 = Inr (f, df)"
    using assms by (intro hornerLoop_ok) simp
  ultimately show ?thesis by (simp add: evalPoly_def)
qed

lemma cdiv_ok: "\<not> cmod df < 1 / 10 ^ 15 \<Longrightarrow> cdiv f df = Inr (f / df)"
  by (auto simp add: cdiv_def)

lemma newtonLoop_ok:
  "0 \<le> ord \<Longrightarrow> ord < int (length cs) \<Longrightarrow>
   \<exists>res rng'. newtonLoop nxt cs ord iter rt rng = Inr (res, rng')"
proof (induction nxt cs ord iter rt rng rule: newtonLoop.induct)
  case (1 nxt cs ord iter rt rng)
  show ?case
  proof (cases "iter < maxIters")
    case False
    then show ?thesis by (simp add: newtonLoop.simps [of nxt cs ord iter rt rng])
  next
    case True
    from evalPoly_ok [OF "1.prems", of rt] obtain f df where ev: "evalPoly cs ord rt = Inr (f, df)"
      by blast
    obtain rt' rng' where rp: "(rt', rng') = randomPoint nxt rng"
      by (metis surj_pair)
    show ?thesis
    proof (cases "cmod df < 1 / 10 ^ 15")
      case small: True
      have "\<exists>res rng''. newtonLoop nxt cs ord (iter + 1) rt' rng' = Inr (res, rng'')"
        using "1.IH"(1) [OF True ev refl small rp "1.prems"] .
      then show ?thesis
        using True small by (simp add: newtonLoop.simps [of nxt cs ord iter rt rng] ev rp [symmetric])
    next
      case large: False
      have dv: "cdiv f df = Inr (f / df)" using large by (rule cdiv_ok)
      show ?thesis
      proof (cases "cmod (rt - f / df - rt) < tolerance")
        case conv: True
        then show ?thesis
          using True large by (simp add: newtonLoop.simps [of nxt cs ord iter rt rng] ev dv)
      next
        case noconv: False
        show ?thesis
        proof (cases "iter mod 500 = 0 \<and> 0 < iter")
          case restart: True
          have "\<exists>res rng''. newtonLoop nxt cs ord (iter + 1) rt' rng' = Inr (res, rng'')"
            using "1.IH"(2) [OF True ev refl large dv noconv restart rp "1.prems"] .
          then show ?thesis
            using True large noconv restart
            by (simp add: newtonLoop.simps [of nxt cs ord iter rt rng] ev dv rp [symmetric])
        next
          case step: False
          have "\<exists>res rng''. newtonLoop nxt cs ord (iter + 1) (rt - f / df) rng = Inr (res, rng'')"
            using "1.IH"(3) [OF True ev refl large dv noconv step "1.prems"] .
          then show ?thesis
            using True large noconv step
            by (auto simp add: newtonLoop.simps [of nxt cs ord iter rt rng] ev dv)
        qed
      qed
    qed
  qed
qed

lemma deflateLoop_ok:
  "i + 1 < int (length nc) \<Longrightarrow> i + 1 < int (length cs) \<Longrightarrow>
   \<exists>nc'. deflateLoop cs r i nc = Inr nc' \<and> length nc' = length nc"
proof (induction cs r i nc rule: deflateLoop.induct)
  case (1 cs r i nc)
  show ?case
  proof (cases "0 \<le> i")
    case False then show ?thesis by (simp add: deflateLoop.simps [of cs r i nc])
  next
    case True
    have a1: "sliceAt cs (i + 1) = Inr (cs ! nat (i + 1))"
      using True "1.prems" by (simp add: sliceAt_def)
    have a2: "sliceAt nc (i + 1) = Inr (nc ! nat (i + 1))"
      using True "1.prems" by (simp add: sliceAt_def)
    define v where "v = cs ! nat (i + 1) + r * nc ! nat (i + 1)"
    have a3: "sliceSet nc i v = Inr (nc[nat i := v])"
      using True "1.prems" by (simp add: sliceSet_def)
    have "\<exists>nc'. deflateLoop cs r (i - 1) (nc[nat i := v]) = Inr nc'
              \<and> length nc' = length (nc[nat i := v])"
      using "1.IH" [OF True a1 a2 a3 [unfolded v_def]] "1.prems" by (simp add: v_def)
    then show ?thesis
      using True by (simp add: deflateLoop.simps [of cs r i nc] a1 a2 a3 [unfolded v_def] v_def)
  qed
qed

lemma deflate_ok:
  assumes "1 \<le> ord" "ord < int (length cs)"
  shows "\<exists>nc. deflate cs ord r = Inr nc \<and> int (length nc) = ord"
proof -
  define nc0 :: "complex list" where "nc0 = replicate (nat ord) 0"
  define nc1 where "nc1 = nc0[nat (ord - 1) := cs ! nat ord]"
  have m: "makeSlice ord = Inr nc0" using assms by (simp add: makeSlice_def nc0_def)
  have a: "sliceAt cs ord = Inr (cs ! nat ord)" using assms by (simp add: sliceAt_def)
  have s: "sliceSet nc0 (ord - 1) (cs ! nat ord) = Inr nc1"
    using assms by (simp add: sliceSet_def nc0_def nc1_def)
  have len: "int (length nc1) = ord" using assms by (simp add: nc1_def nc0_def)
  have "\<exists>nc'. deflateLoop cs r (ord - 2) nc1 = Inr nc' \<and> length nc' = length nc1"
    using assms len by (intro deflateLoop_ok) simp_all
  then show ?thesis using len by (auto simp add: deflate_def m a s)
qed

lemma findRoots_ok:
  "1 \<le> ord \<Longrightarrow> ord < int (length cs) \<Longrightarrow>
   \<exists>roots rng'. findRootsInnerWithRand nxt cs ord rng = Inr (roots, rng') \<and> int (length roots) \<le> ord"
proof (induction nxt cs ord rng rule: findRootsInnerWithRand.induct)
  case (1 nxt cs ord rng)
  show ?case
  proof (cases "ord = 1")
    case True
    have a1: "sliceAt cs 1 = Inr (cs ! 1)" using True "1.prems" by (simp add: sliceAt_def)
    have a0: "sliceAt cs 0 = Inr (cs ! 0)" using True "1.prems" by (auto simp add: sliceAt_def)
    show ?thesis
      unfolding True by (simp add: findRootsInnerWithRand.simps [of nxt cs 1 rng] a1 a0 cdiv_def)
  next
    case False
    obtain rt rng1 where rp: "(rt, rng1) = randomPoint nxt rng" by (metis surj_pair)
    have ord0: "0 \<le> ord" using "1.prems" by simp
    from newtonLoop_ok [OF ord0 "1.prems"(2), of nxt 0 rt rng1]
    obtain res rng2 where nl: "newtonLoop nxt cs ord 0 rt rng1 = Inr (res, rng2)" by blast
    show ?thesis
    proof (cases res)
      case None
      then show ?thesis
        using False "1.prems"
        by (simp add: findRootsInnerWithRand.simps [of nxt cs ord rng] rp [symmetric] nl)
    next
      case (Some r)
      from deflate_ok [OF "1.prems", of r] obtain nc where df: "deflate cs ord r = Inr nc"
        and len: "int (length nc) = ord" by blast
      have "\<exists>roots rng'. findRootsInnerWithRand nxt nc (ord - 1) rng2 = Inr (roots, rng')
              \<and> int (length roots) \<le> ord - 1"
        using "1.IH" [OF False rp nl refl Some df] False "1.prems" len by simp
      then show ?thesis
        using False
        by (auto simp add: findRootsInnerWithRand.simps [of nxt cs ord rng] rp [symmetric] nl Some df)
    qed
  qed
qed

text \<open>
  Claim C3. For every coefficient slice of length \<open>order + 1\<close> with \<open>order \<ge> 1\<close>, every
  random source \<open>nxt\<close> and every state of it, the root finder returns: the result is
  never an error (no index out of range, no division by zero, no negative length), the
  function is total (the iteration is bounded by \<open>maxIters\<close>, the recursion decreases
  \<open>order\<close>), and at most \<open>order\<close> roots are returned.
\<close>

theorem findRoots_returns:
  assumes "1 \<le> ord" and "int (length cs) = ord + 1"
  shows "\<exists>roots rng'. findRootsInnerWithRand nxt cs ord rng = Inr (roots, rng')
           \<and> int (length roots) \<le> ord"
  using assms by (intro findRoots_ok) simp_all

theorem findRoots_returns_witness:
  "(1::int) \<le> 2 \<and> int (length [- 2, 0, 1 :: complex]) = 2 + 1
   \<and> (\<exists>roots rng'. findRootsInnerWithRand (\<lambda>s :: nat. (1 / 2, Suc s)) [- 2, 0, 1] 2 0
          = Inr (roots, rng') \<and> int (length roots) \<le> 2)"
  using findRoots_returns [of 2 "[- 2, 0, 1]" "\<lambda>s :: nat. (1 / 2, Suc s)" 0]
  by simp

text \<open>
  Claim C4. For \<open>order = 1\<close> the result is the single root \<open>- cs[0] / cs[1]\<close> when
  \<open>cs[1]\<close> is not 0, and no root when it is 0; the random source is not used and is
  left in the state in which it was passed.
\<close>

theorem findRoots_linear:
  assumes "2 \<le> length cs"
  shows "findRootsInnerWithRand nxt cs 1 rng
         = Inr (if cs ! 1 \<noteq> 0 then [- (cs ! 0) / cs ! 1] else [], rng)"
proof -
  have a1: "sliceAt cs 1 = Inr (cs ! 1)" using assms by (simp add: sliceAt_def)
  have a0: "sliceAt cs 0 = Inr (cs ! 0)" using assms by (auto simp add: sliceAt_def)
  show ?thesis
    by (simp add: findRootsInnerWithRand.simps [of nxt cs 1 rng] a1 a0 cdiv_def)
qed

theorem findRoots_linear_witness:
  "2 \<le> length [- 2, 1 :: complex]
   \<and> findRootsInnerWithRand (\<lambda>s :: nat. (1 / 2, Suc s)) [- 2, 1] 1 0 = Inr ([2], 0)
   \<and> findRootsInnerWithRand (\<lambda>s :: nat. (1 / 2, Suc s)) [- 2, 0] 1 0 = Inr ([], 0)"
  using findRoots_linear [of "[- 2, 1]" "\<lambda>s :: nat. (1 / 2, Suc s)" 0]
    findRoots_linear [of "[- 2, 0]" "\<lambda>s :: nat. (1 / 2, Suc s)" 0]
  by simp

section \<open>Properties of the image accumulator\<close>

subsection \<open>Rounding to a float64\<close>

lemma roundHalfEven_ge: "of_int k \<le> v \<Longrightarrow> k \<le> roundHalfEven v"
proof -
  assume "of_int k \<le> v"
  then have "k \<le> \<lfloor>v\<rfloor>" by (simp add: le_floor_iff)
  then show ?thesis by (simp add: roundHalfEven_def Let_def)
qed

lemma roundHalfEven_le: "v \<le> of_int k \<Longrightarrow> roundHalfEven v \<le> k"
proof (cases "v = of_int k")
  case True
  then show ?thesis by (simp add: roundHalfEven_def)
next
  case False
  assume "v \<le> of_int k"
  then have "v < of_int k" using False by simp
  then have "\<lfloor>v\<rfloor> < k" by (simp add: floor_less_iff)
  then show ?thesis by (simp add: roundHalfEven_def Let_def)
qed

lemma float64Exponent_bounds:
  assumes "v \<noteq> 0" and "2 powi (- 1022) \<le> \<bar>v\<bar>"
  shows "2 powi float64Exponent v \<le> \<bar>v\<bar>" and "\<bar>v\<bar> < 2 powi (float64Exponent v + 1)"
proof -
  define L where "L = \<lfloor>log 2 \<bar>v\<bar>\<rfloor>"
  have pos: "0 < \<bar>v\<bar>" using assms(1) by simp
  have "2 powr real_of_int L \<le> \<bar>v\<bar> \<and> \<bar>v\<bar> < 2 powr (real_of_int L + 1)"
    using floor_log_eq_powr_iff [OF pos, of 2 L] by (simp add: L_def)
  then have b: "2 powi L \<le> \<bar>v\<bar>" "\<bar>v\<bar> < 2 powi (L + 1)"
    using powr_real_of_int' [of 2 L] powr_real_of_int' [of 2 "L + 1"] by simp_all
  have "- 1022 \<le> L"
  proof (rule ccontr)
    assume "\<not> - 1022 \<le> L"
    then have "L + 1 \<le> - 1022" by simp
    then have "(2::real) powi (L + 1) \<le> 2 powi (- 1022)"
      by (intro power_int_increasing) simp_all
    then show False using b(2) assms(2) by linarith
  qed
  then have "float64Exponent v = L" by (simp add: float64Exponent_def L_def)
  then show "2 powi float64Exponent v \<le> \<bar>v\<bar>" and "\<bar>v\<bar> < 2 powi (float64Exponent v + 1)"
    using b by simp_all
qed




lemma toFloat64_nonneg:
  assumes "0 \<le> v"
  shows "0 \<le> toFloat64 v"
proof (cases "v = 0")
  case True then show ?thesis by (simp add: toFloat64_def)
next
  case False
  define q :: real where "q = 2 powi (float64Exponent v - 52)"
  have q: "0 < q" by (simp add: q_def)
  have "of_int 0 \<le> v / q" using assms q by simp
  then have "0 \<le> roundHalfEven (v / q)" by (rule roundHalfEven_ge)
  then show ?thesis using False q by (simp add: toFloat64_def flip: q_def)
qed

lemma small_quantum:
  assumes "e \<le> 52"
  shows "real_of_int m = of_int (m * 2 ^ nat (52 - e)) * 2 powi (e - 52)"
proof -
  have "(2::real) powi (e - 52) = inverse (2 ^ nat (52 - e))"
  proof (cases "e = 52")
    case True then show ?thesis by simp
  next
    case False
    then have "\<not> 0 \<le> e - 52" using assms by simp
    then show ?thesis by (simp add: power_int_def power_one_over inverse_eq_divide)
  qed
  then show ?thesis by simp
qed

lemma floor_log_le:
  assumes "0 < v" and "v \<le> 2 ^ 52"
  shows "\<lfloor>log 2 v\<rfloor> \<le> 52"
proof (rule ccontr)
  assume "\<not> \<lfloor>log 2 v\<rfloor> \<le> 52"
  then have "53 \<le> \<lfloor>log 2 v\<rfloor>" by simp
  then have "of_int 53 \<le> log 2 v" by (simp only: le_floor_iff)
  then have "2 powr 53 \<le> v" using assms(1) by (simp add: le_log_iff)
  then show False using assms(2) by simp
qed

text \<open>
  Rounding is monotone at the integers up to \<open>2 ^ 52\<close>, which are float64 values: a
  value that is at most such an integer, or at least one, stays so when rounded.
\<close>

lemma toFloat64_le_int:
  assumes "0 \<le> v" and "v \<le> of_int m" and "m \<le> 2 ^ 52"
  shows "toFloat64 v \<le> of_int m"
proof (cases "v = 0")
  case True then show ?thesis using assms by (simp add: toFloat64_def)
next
  case False
  define e where "e = float64Exponent v"
  define q :: real where "q = 2 powi (e - 52)"
  define M where "M = m * 2 ^ nat (52 - e)"
  have q: "0 < q" by (simp add: q_def)
  have "real_of_int m \<le> real_of_int (2 ^ 52)" using assms(3) by (simp only: of_int_le_iff)
  then have "v \<le> 2 ^ 52" using assms(2) by simp
  then have "\<lfloor>log 2 \<bar>v\<bar>\<rfloor> \<le> 52" using assms(1) False by (intro floor_log_le) simp_all
  then have e: "e \<le> 52" by (simp add: e_def float64Exponent_def)
  have m: "real_of_int m = of_int M * q"
    unfolding q_def M_def by (rule small_quantum [OF e])
  have "v \<le> of_int M * q" using assms(2) by (simp only: m)
  then have "v / q \<le> of_int M" using q by (simp only: pos_divide_le_eq)
  then have "roundHalfEven (v / q) \<le> M" by (rule roundHalfEven_le)
  then have "real_of_int (roundHalfEven (v / q)) \<le> of_int M"
    by (simp only: of_int_le_iff)
  then have "of_int (roundHalfEven (v / q)) * q \<le> of_int M * q"
    using q by (simp only: mult_le_cancel_right_pos)
  then have "of_int (roundHalfEven (v / q)) * q \<le> real_of_int m" by (simp only: m)
  moreover have "toFloat64 v = of_int (roundHalfEven (v / q)) * q"
    using False by (simp add: toFloat64_def flip: e_def q_def)
  ultimately show ?thesis by simp
qed

lemma toFloat64_ge_int:
  assumes "0 \<le> m" and "m \<le> 2 ^ 52" and "of_int m \<le> v"
  shows "of_int m \<le> toFloat64 v"
proof (cases "m = 0")
  case True
  then show ?thesis using assms(3) toFloat64_nonneg [of v] by simp
next
  case False
  then have m1: "1 \<le> m" using assms(1) by simp
  then have "(1::real) \<le> of_int m" by simp
  then have v1: "1 \<le> v" using assms(3) by linarith
  then have v0: "v \<noteq> 0" and va: "\<bar>v\<bar> = v" by simp_all
  define e where "e = float64Exponent v"
  define q :: real where "q = 2 powi (e - 52)"
  have q: "0 < q" by (simp add: q_def)
  have "(2::real) powi (- 1022) \<le> 2 powi 0" by (intro power_int_increasing) simp_all
  then have "(2::real) powi (- 1022) \<le> \<bar>v\<bar>" using v1 by simp
  from float64Exponent_bounds [OF v0 this]
  have lo: "2 powi e \<le> v" and hi: "v < 2 powi (e + 1)" by (simp_all add: e_def va)
  have fl: "toFloat64 v = of_int (roundHalfEven (v / q)) * q"
    using v0 by (simp add: toFloat64_def flip: e_def q_def)
  show ?thesis
  proof (cases "e \<le> 52")
    case True
    define M where "M = m * 2 ^ nat (52 - e)"
    have m: "real_of_int m = of_int M * q"
      unfolding q_def M_def by (rule small_quantum [OF True])
    have "of_int M * q \<le> v" using assms(3) by (simp only: m)
    then have "of_int M \<le> v / q" using q by (simp only: pos_le_divide_eq)
    then have "M \<le> roundHalfEven (v / q)" by (rule roundHalfEven_ge)
    then have "real_of_int M \<le> of_int (roundHalfEven (v / q))"
      by (simp only: of_int_le_iff)
    then have "of_int M * q \<le> of_int (roundHalfEven (v / q)) * q"
      using q by (simp only: mult_le_cancel_right_pos)
    then show ?thesis by (simp only: fl m)
  next
    case False
    define c :: int where "c = 2 ^ 52"
    have c: "real_of_int c = 2 powi 52" by (simp add: c_def)
    have e: "0 \<le> e - 52" using False by simp
    have "(2::real) powi 0 \<le> 2 powi (e - 52)" using e by (intro power_int_increasing) simp_all
    then have q1: "1 \<le> q" by (simp add: q_def)
    have "(2::real) powi e = 2 powi 52 * 2 powi (e - 52)"
      using power_int_add [of "2::real" 52 "e - 52"] by simp
    then have "of_int c * q \<le> v" using lo by (simp only: q_def c)
    then have "of_int c \<le> v / q" using q by (simp only: pos_le_divide_eq)
    then have "c \<le> roundHalfEven (v / q)" by (rule roundHalfEven_ge)
    moreover have "m \<le> c" using assms(2) by (simp only: c_def)
    ultimately have mr: "m \<le> roundHalfEven (v / q)" by linarith
    define r where "r = real_of_int (roundHalfEven (v / q))"
    have "real_of_int m \<le> r" unfolding r_def using mr by (simp only: of_int_le_iff)
    moreover have "0 \<le> real_of_int m" using assms(1) by simp
    ultimately have "0 \<le> r" "real_of_int m \<le> r" by linarith+
    then have "real_of_int m \<le> r * q"
      using q1 mult_left_mono [of 1 q r] by linarith
    then show ?thesis by (simp only: fl r_def)
  qed
qed















subsection \<open>The blend of one channel\<close>

text \<open>
  For an intensity that is not negative, the blend adds to the channel the integer part
  of the rounded product, saturating at 255, or one unit more: the rounding of the sum
  can carry it over the next integer, and never further.
\<close>

lemma clamp_floor_bounds:
  fixes n :: nat and p :: real
  assumes "n \<le> 255" and "0 \<le> p"
  defines "new \<equiv> toFloat64 (real n + p)"
  shows "int (min 255 (n + nat \<lfloor>p\<rfloor>)) \<le> goInt (if new > 255 then 255 else new)"
    and "goInt (if new > 255 then 255 else new) \<le> int (min 255 (n + nat \<lfloor>p\<rfloor> + 1))"
proof -
  define k where "k = nat \<lfloor>p\<rfloor>"
  have "0 \<le> \<lfloor>p\<rfloor>" using assms(2) by simp
  then have kf: "int k = \<lfloor>p\<rfloor>" by (simp add: k_def)
  have klo: "real k \<le> p" and khi: "p < real k + 1"
  proof -
    have "real_of_int (int k) \<le> p" unfolding kf by (rule of_int_floor_le)
    then show "real k \<le> p" by simp
    have "p < real_of_int (int k) + 1" unfolding kf by linarith
    then show "p < real k + 1" by simp
  qed
  define v where "v = (if new > 255 then 255 else new)"
  have s0: "0 \<le> real n + p" using assms(2) by simp
  have "int (min 255 (n + k)) \<le> goInt v \<and> goInt v \<le> int (min 255 (n + k + 1))"
  proof (cases "255 \<le> n + k")
    case True
    have "real_of_int 255 \<le> real n + p" using True klo by simp
    then have "real_of_int 255 \<le> new"
      unfolding new_def by (intro toFloat64_ge_int) simp_all
    then have "v = 255" by (simp add: v_def)
    then show ?thesis using True by (simp add: goInt_def)
  next
    case False
    then have le: "n + k + 1 \<le> 255" by simp
    have "real_of_int (int (n + k)) \<le> real n + p" using klo by simp
    then have lo: "real_of_int (int (n + k)) \<le> new"
      unfolding new_def by (intro toFloat64_ge_int) (use le in simp_all)
    have "real n + p \<le> real_of_int (int (n + k + 1))" using khi by simp
    then have hi: "new \<le> real_of_int (int (n + k + 1))"
      unfolding new_def by (intro toFloat64_le_int [OF s0]) (use le in simp_all)
    have "real_of_int (int (n + k + 1)) \<le> 255" using le by simp
    then have v: "v = new" using hi by (simp add: v_def)
    have new0: "0 \<le> new" using lo by simp
    have "int (n + k) \<le> \<lfloor>new\<rfloor>" using lo by (simp only: le_floor_iff)
    moreover have "\<lfloor>new\<rfloor> \<le> int (n + k + 1)" using hi by linarith
    ultimately show ?thesis using le new0 by (simp add: v goInt_def)
  qed
  then show "int (min 255 (n + nat \<lfloor>p\<rfloor>)) \<le> goInt (if new > 255 then 255 else new)"
    and "goInt (if new > 255 then 255 else new) \<le> int (min 255 (n + nat \<lfloor>p\<rfloor> + 1))"
    by (simp_all add: k_def v_def)
qed

lemma unat_word_of_int_small:
  assumes "0 \<le> z" and "z \<le> 255"
  shows "unat (word_of_int z :: 8 word) = nat z"
proof -
  have "nat z < 2 ^ LENGTH(8)" using assms by simp
  moreover have "(word_of_int z :: 8 word) = word_of_nat (nat z)" using assms(1) by simp
  ultimately show ?thesis by (simp only: of_nat_inverse [OF refl])
qed

lemma blendChannel_within:
  assumes "0 \<le> intensity"
  shows "chanNear e (nat \<lfloor>toFloat64 (real (unat col) * intensity)\<rfloor>) 1 (blendChannel e col intensity)"
proof -
  define n where "n = unat e"
  define p where "p = toFloat64 (real (unat col) * intensity)"
  define z where "z = goInt (if toFloat64 (real n + p) > 255 then 255 else toFloat64 (real n + p))"
  have "unat e < 2 ^ LENGTH(8)" by (rule unsigned_less)
  then have n: "n \<le> 255" by (simp add: n_def)
  have "0 \<le> real (unat col) * intensity"
    by (rule mult_nonneg_nonneg [OF of_nat_0_le_iff assms])
  then have p: "0 \<le> p" unfolding p_def by (rule toFloat64_nonneg)
  have lo: "int (min 255 (n + nat \<lfloor>p\<rfloor>)) \<le> z" and hi: "z \<le> int (min 255 (n + nat \<lfloor>p\<rfloor> + 1))"
    unfolding z_def by (rule clamp_floor_bounds [OF n p])+
  have z0: "0 \<le> z" using lo by linarith
  have z255: "z \<le> 255" using hi by linarith
  have b: "blendChannel e col intensity = word_of_int z"
    by (simp add: blendChannel_def toUint8_def Let_def z_def n_def p_def)
  have u: "unat (blendChannel e col intensity) = nat z"
    unfolding b by (rule unat_word_of_int_small [OF z0 z255])
  define k where "k = nat \<lfloor>p\<rfloor>"
  have "min 255 (n + k) \<le> nat z \<and> nat z \<le> min 255 (n + k + 1)"
    using lo hi z0 unfolding k_def by linarith
  then have "chanNear e k 1 (blendChannel e col intensity)"
    unfolding chanNear_def u n_def .
  then show ?thesis unfolding k_def p_def .
qed


subsection \<open>Contributions compose\<close>

lemma chanNear_trans:
  assumes "chanNear e a n e1" and "chanNear e1 b m e2"
  shows "chanNear e (a + b) (n + m) e2"
  using assms unfolding chanNear_def by linarith

lemma chanNear_mono:
  assumes "chanNear e a n e'" and "n \<le> m"
  shows "chanNear e a m e'"
  using assms unfolding chanNear_def by linarith

lemma chanNear_le:
  assumes "chanNear e a n e'"
  shows "e \<le> e'"
proof -
  have "unat e < 2 ^ LENGTH(8)" by (rule unsigned_less)
  then have "unat e \<le> 255" by simp
  then have "unat e \<le> unat e'" using assms unfolding chanNear_def by linarith
  then show ?thesis by (simp only: word_le_nat_alt)
qed


lemma nearPix_mono:
  assumes "nearPix c n p p'" and "n \<le> m"
  shows "nearPix c m p p'"
proof (cases c)
  case None
  then show ?thesis using assms by simp
next
  case (Some t)
  obtain a b d where t: "t = (a, b, d)" by (cases t)
  show ?thesis using assms unfolding Some t by (auto intro: chanNear_mono)
qed

lemma nearPix_comp:
  assumes "nearPix c n p p1" and "nearPix c' m p1 p2"
  shows "nearPix (cplus c c') (n + m) p p2"
proof (cases c)
  case None
  then have "p1 = p" using assms(1) by simp
  then have "nearPix c' m p p2" using assms(2) by simp
  then show ?thesis unfolding None by (simp add: nearPix_mono)
next
  case (Some t)
  obtain a b d where t: "t = (a, b, d)" by (cases t)
  show ?thesis
  proof (cases c')
    case None
    then have "p2 = p1" using assms(2) by simp
    then have "nearPix c n p p2" using assms(1) by simp
    then have "nearPix c (n + m) p p2" by (rule nearPix_mono) simp
    then show ?thesis unfolding None \<open>c = Some t\<close> t by simp
  next
    case (Some t')
    obtain a' b' d' where t': "t' = (a', b', d')" by (cases t')
    show ?thesis
      using assms unfolding \<open>c = Some t\<close> Some t t' by (auto intro: chanNear_trans)
  qed
qed


lemma blendsAs_bounds:
  assumes "blendsAs f F S"
  shows "bounds (f img) = bounds img"
  using assms unfolding blendsAs_def by blast

lemma blendsAs_pix:
  assumes "blendsAs f F S"
  shows "nearPix (F (bounds img) q) (S q) (pix img q) (pix (f img) q)"
  using assms unfolding blendsAs_def by blast

lemma blendsAs_id: "blendsAs (\<lambda>img. img) (\<lambda>b q. None) (\<lambda>q. 0)"
  by (simp add: blendsAs_def)

lemma blendsAs_comp:
  assumes "blendsAs f F S" and "blendsAs g F' S'"
  shows "blendsAs (\<lambda>img. g (f img)) (\<lambda>b q. cplus (F b q) (F' b q)) (\<lambda>q. S q + S' q)"
  unfolding blendsAs_def
proof (intro allI conjI)
  fix img
  show b: "bounds (g (f img)) = bounds img"
    by (simp add: blendsAs_bounds [OF assms(1)] blendsAs_bounds [OF assms(2)])
  fix q
  have 1: "nearPix (F (bounds img) q) (S q) (pix img q) (pix (f img) q)"
    by (rule blendsAs_pix [OF assms(1)])
  have "nearPix (F' (bounds (f img)) q) (S' q) (pix (f img) q) (pix (g (f img)) q)"
    by (rule blendsAs_pix [OF assms(2)])
  moreover have "bounds (f img) = bounds img" by (rule blendsAs_bounds [OF assms(1)])
  ultimately have 2: "nearPix (F' (bounds img) q) (S' q) (pix (f img) q) (pix (g (f img)) q)"
    by simp
  show "nearPix (cplus (F (bounds img) q) (F' (bounds img) q)) (S q + S' q)
          (pix img q) (pix (g (f img)) q)"
    by (rule nearPix_comp [OF 1 2])
qed

lemma blendsAs_mono:
  assumes "blendsAs f F S" and "\<And>q. S q \<le> S' q"
  shows "blendsAs f F S'"
  unfolding blendsAs_def
  using blendsAs_bounds [OF assms(1)] nearPix_mono [OF blendsAs_pix [OF assms(1)] assms(2)]
  by blast

lemma blendsAs_foldl:
  assumes "\<And>x. blendsAs (\<lambda>img. step img x) (F x) (S x)"
  shows "blendsAs (\<lambda>img. foldl step img xs)
           (\<lambda>b q. foldl cplus None (map (\<lambda>x. F x b q) xs))
           (\<lambda>q. sum_list (map (\<lambda>x. S x q) xs))"
proof (induction xs rule: rev_induct)
  case Nil
  show ?case using blendsAs_id by simp
next
  case (snoc x xs)
  show ?case using blendsAs_comp [OF snoc assms [of x]] by simp
qed

lemma blendsAs_channelsLe:
  assumes "blendsAs f F S"
  shows "channelsLe img (f img)"
  unfolding channelsLe_def
proof (intro allI)
  fix x y
  have ib: "inBounds (f img) x y = inBounds img x y"
    by (simp add: inBounds_def blendsAs_bounds [OF assms])
  have "R (pix img (x, y)) \<le> R (pix (f img) (x, y)) \<and> G (pix img (x, y)) \<le> G (pix (f img) (x, y))
        \<and> B (pix img (x, y)) \<le> B (pix (f img) (x, y))"
  proof (cases "F (bounds img) (x, y)")
    case None
    then show ?thesis using blendsAs_pix [OF assms, of img "(x, y)"] by simp
  next
    case (Some t)
    obtain a b d where t: "t = (a, b, d)" by (cases t)
    show ?thesis
      using blendsAs_pix [OF assms, of img "(x, y)"] unfolding Some t
      by (auto intro: chanNear_le)
  qed
  then show "R (RGBAAt img x y) \<le> R (RGBAAt (f img) x y) \<and> G (RGBAAt img x y) \<le> G (RGBAAt (f img) x y)
        \<and> B (RGBAAt img x y) \<le> B (RGBAAt (f img) x y)"
    by (simp add: RGBAAt_def ib)
qed



subsection \<open>drawBlob\<close>

text \<open>
  The offsets of the two loops of drawBlob are pairwise different, so one call writes a
  pixel at most once, and its slack is one unit per channel.
\<close>

lemma blobPixel_blendsAs:
  "blendsAs (\<lambda>img. blobPixel x y radius col dy img dx) (pixContrib x y radius col dy dx)
     (pixSlack x y dy dx)"
  unfolding blendsAs_def
proof (intro allI conjI)
  fix img
  show "bounds (blobPixel x y radius col dy img dx) = bounds img"
    by (simp add: blobPixel_def Let_def SetRGBA_def)
  fix q
  let ?I = "blobIntensity radius dx dy"
  let ?in = "MinX (bounds img) \<le> x + dx \<and> x + dx < MaxX (bounds img)
             \<and> MinY (bounds img) \<le> y + dy \<and> y + dy < MaxY (bounds img)"
  show "nearPix (pixContrib x y radius col dy dx (bounds img) q) (pixSlack x y dy dx q)
          (pix img q) (pix (blobPixel x y radius col dy img dx) q)"
  proof (cases "?in \<and> ?I > 0.005")
    case False
    then have "blobPixel x y radius col dy img dx = img"
      by (auto simp add: blobPixel_def Let_def)
    moreover have "pixContrib x y radius col dy dx (bounds img) q = None"
      using False by (auto simp add: pixContrib_def)
    ultimately show ?thesis by simp
  next
    case True
    then have I0: "0 \<le> ?I" by simp
    have ib: "inBounds img (x + dx) (y + dy)" using True by (simp add: inBounds_def)
    have bp: "blobPixel x y radius col dy img dx
              = img\<lparr>pix := (pix img)((x + dx, y + dy) :=
                   \<lparr>R = blendChannel (R (pix img (x + dx, y + dy))) (R col) ?I,
                    G = blendChannel (G (pix img (x + dx, y + dy))) (G col) ?I,
                    B = blendChannel (B (pix img (x + dx, y + dy))) (B col) ?I,
                    A = 255\<rparr>)\<rparr>"
      using True ib by (simp add: blobPixel_def Let_def SetRGBA_def RGBAAt_def not_less)
    show ?thesis
    proof (cases "q = (x + dx, y + dy)")
      case False
      then show ?thesis by (simp add: bp pixContrib_def)
    next
      case q: True
      have c: "pixContrib x y radius col dy dx (bounds img) q
               = Some (chanContrib (R col) ?I, chanContrib (G col) ?I, chanContrib (B col) ?I)"
        using True q by (simp add: pixContrib_def)
      show ?thesis
        unfolding c bp using blendChannel_within [OF I0]
        by (simp add: q pixSlack_def chanContrib_def)
    qed
  qed
qed

lemma sum_list_zero:
  fixes f :: "'a \<Rightarrow> nat"
  assumes "\<And>v. v \<in> set xs \<Longrightarrow> f v = 0"
  shows "sum_list (map f xs) = 0"
  using assms by (induction xs) simp_all

lemma sum_list_at_most_one:
  fixes f :: "'a \<Rightarrow> nat"
  assumes "distinct xs" and "\<And>v. f v \<le> 1"
    and "\<And>v w. f v \<noteq> 0 \<Longrightarrow> f w \<noteq> 0 \<Longrightarrow> v = w"
  shows "sum_list (map f xs) \<le> 1"
  using assms(1)
proof (induction xs)
  case Nil
  show ?case by simp
next
  case (Cons x xs)
  show ?case
  proof (cases "f x = 0")
    case True
    then show ?thesis using Cons by simp
  next
    case False
    have s0: "sum_list (map f xs) = 0"
    proof (rule sum_list_zero)
      fix v assume "v \<in> set xs"
      then have "v \<noteq> x" using Cons.prems by auto
      then show "f v = 0" using assms(3) [of v x] False by blast
    qed
    show ?thesis unfolding list.map sum_list.Cons s0 using assms(2) [of x] by simp
  qed
qed

lemma rowSlack_le: "sum_list (map (\<lambda>dx. pixSlack x y dy dx q) [- r..r]) \<le> 1"
  by (rule sum_list_at_most_one) (auto simp add: pixSlack_def split: if_splits)

lemma rowSlack_nonzero:
  assumes "sum_list (map (\<lambda>dx. pixSlack x y dy dx q) [- r..r]) \<noteq> 0"
  shows "snd q = y + dy"
proof (rule ccontr)
  assume "snd q \<noteq> y + dy"
  then have "sum_list (map (\<lambda>dx. pixSlack x y dy dx q) [- r..r]) = 0"
    by (intro sum_list_zero) (auto simp add: pixSlack_def)
  then show False using assms by simp
qed

lemma blobSlack_le:
  "sum_list (map (\<lambda>dy. sum_list (map (\<lambda>dx. pixSlack x y dy dx q) [- r..r])) [- r..r]) \<le> 1"
proof (rule sum_list_at_most_one)
  show "distinct [- r..r]" by simp
  show "sum_list (map (\<lambda>dx. pixSlack x y v dx q) [- r..r]) \<le> 1" for v by (rule rowSlack_le)
  show "v = w"
    if "sum_list (map (\<lambda>dx. pixSlack x y v dx q) [- r..r]) \<noteq> 0"
      and "sum_list (map (\<lambda>dx. pixSlack x y w dx q) [- r..r]) \<noteq> 0" for v w
    using rowSlack_nonzero [OF that(1)] rowSlack_nonzero [OF that(2)] by simp
qed

lemma drawBlob_blendsAs:
  "blendsAs (\<lambda>img. drawBlob img x y radius col) (blobContrib x y radius col) (\<lambda>q. 1)"
proof -
  define r where "r = goInt (toFloat64 (radius + 5))"
  have row: "blendsAs (\<lambda>img. foldl (blobPixel x y radius col dy) img [- r..r])
               (\<lambda>b q. foldl cplus None (map (\<lambda>dx. pixContrib x y radius col dy dx b q) [- r..r]))
               (\<lambda>q. sum_list (map (\<lambda>dx. pixSlack x y dy dx q) [- r..r]))" for dy
    by (rule blendsAs_foldl) (rule blobPixel_blendsAs)
  have "blendsAs (\<lambda>img. foldl (\<lambda>img dy. foldl (blobPixel x y radius col dy) img [- r..r]) img [- r..r])
          (\<lambda>b q. foldl cplus None
             (map (\<lambda>dy. foldl cplus None (map (\<lambda>dx. pixContrib x y radius col dy dx b q) [- r..r]))
                [- r..r]))
          (\<lambda>q. sum_list (map (\<lambda>dy. sum_list (map (\<lambda>dx. pixSlack x y dy dx q) [- r..r])) [- r..r]))"
    by (rule blendsAs_foldl) (rule row)
  then have "blendsAs (\<lambda>img. foldl (\<lambda>img dy. foldl (blobPixel x y radius col dy) img [- r..r]) img [- r..r])
          (\<lambda>b q. foldl cplus None
             (map (\<lambda>dy. foldl cplus None (map (\<lambda>dx. pixContrib x y radius col dy dx b q) [- r..r]))
                [- r..r]))
          (\<lambda>q. 1)"
    by (rule blendsAs_mono) (rule blobSlack_le)
  then show ?thesis
    unfolding drawBlob_def blobContrib_def Let_def r_def .
qed

lemma drawPoint_blendsAs:
  "blendsAs (\<lambda>img. drawPoint config img point) (pointContrib config point) (\<lambda>q. 1)"
proof (cases "outsideViewport config point")
  case True
  have "blendsAs (\<lambda>img. img) (\<lambda>b q. None) (\<lambda>q. 1)"
    by (rule blendsAs_mono [OF blendsAs_id]) simp
  then show ?thesis using True by (simp add: drawPoint_def pointContrib_def [abs_def])
next
  case False
  show ?thesis
    using False drawBlob_blendsAs
    by (simp add: drawPoint_def pointContrib_def [abs_def])
qed


lemma channelsBounded_any: "channelsBounded img"
proof -
  have "unat w \<le> 255" for w :: "8 word"
    using unsigned_less [of w, where 'a = nat] by simp
  then show ?thesis by (simp add: channelsBounded_def)
qed





subsection \<open>Rendering\<close>




text \<open>
  Claim C7. A point whose real part is strictly below \<open>XMin\<close> or strictly above \<open>XMax\<close>,
  or whose imaginary part is strictly below \<open>YMin\<close> or strictly above \<open>YMax\<close>, is skipped:
  removing it from the list of points leaves the rendered image unchanged. The test is
  strict, so a point with \<open>XMin \<le> x \<le> XMax\<close> and \<open>YMin \<le> y \<le> YMax\<close>, in particular one
  exactly on \<open>XMax\<close> or \<open>YMax\<close>, is not skipped: its blob is drawn.
\<close>

theorem viewport_filter:
  "(Re (Z point) < XMin config \<or> Re (Z point) > XMax config
    \<or> Im (Z point) < YMin config \<or> Im (Z point) > YMax config \<longrightarrow>
      renderImage (points @ point # points') config = renderImage (points @ points') config)
   \<and> (XMin config \<le> Re (Z point) \<and> Re (Z point) \<le> XMax config
      \<and> YMin config \<le> Im (Z point) \<and> Im (Z point) \<le> YMax config \<longrightarrow>
        renderImage (points @ [point]) config
          = drawBlob (renderImage points config) (screenX config point) (screenY config point)
              (blobRadius config point) (getColorForLeadingCoeff (LeadingCoeff point)))"
  by (auto simp add: renderImage_def drawPoint_def outsideViewport_def)

theorem viewport_filter_witness:
  "Re (Z \<lparr>Z = 3, H = 3, Ord = 1, LeadingCoeff = 1\<rparr>) > XMax (mainConfig 15)
   \<and> renderImage ([\<lparr>Z = 0, H = 3, Ord = 1, LeadingCoeff = 1\<rparr>]
          @ \<lparr>Z = 3, H = 3, Ord = 1, LeadingCoeff = 1\<rparr> # []) (mainConfig 15)
       = renderImage ([\<lparr>Z = 0, H = 3, Ord = 1, LeadingCoeff = 1\<rparr>] @ []) (mainConfig 15)
   \<and> Re (Z \<lparr>Z = Complex 2 2, H = 3, Ord = 1, LeadingCoeff = 1\<rparr>) = XMax (mainConfig 15)
   \<and> Im (Z \<lparr>Z = Complex 2 2, H = 3, Ord = 1, LeadingCoeff = 1\<rparr>) = YMax (mainConfig 15)
   \<and> renderImage ([] @ [\<lparr>Z = Complex 2 2, H = 3, Ord = 1, LeadingCoeff = 1\<rparr>]) (mainConfig 15)
       = drawBlob (renderImage [] (mainConfig 15))
           (screenX (mainConfig 15) \<lparr>Z = Complex 2 2, H = 3, Ord = 1, LeadingCoeff = 1\<rparr>)
           (screenY (mainConfig 15) \<lparr>Z = Complex 2 2, H = 3, Ord = 1, LeadingCoeff = 1\<rparr>)
           (blobRadius (mainConfig 15) \<lparr>Z = Complex 2 2, H = 3, Ord = 1, LeadingCoeff = 1\<rparr>)
           (getColorForLeadingCoeff 1)"
proof -
  have out: "Re (Z \<lparr>Z = 3, H = 3, Ord = 1, LeadingCoeff = 1\<rparr>) > XMax (mainConfig 15)"
    by (simp add: mainConfig_def)
  have inside: "XMin (mainConfig 15) \<le> Re (Z \<lparr>Z = Complex 2 2, H = 3, Ord = 1, LeadingCoeff = 1\<rparr>)
      \<and> Re (Z \<lparr>Z = Complex 2 2, H = 3, Ord = 1, LeadingCoeff = 1\<rparr>) \<le> XMax (mainConfig 15)
      \<and> YMin (mainConfig 15) \<le> Im (Z \<lparr>Z = Complex 2 2, H = 3, Ord = 1, LeadingCoeff = 1\<rparr>)
      \<and> Im (Z \<lparr>Z = Complex 2 2, H = 3, Ord = 1, LeadingCoeff = 1\<rparr>) \<le> YMax (mainConfig 15)"
    by (simp add: mainConfig_def)
  have on: "Re (Z \<lparr>Z = Complex 2 2, H = 3, Ord = 1, LeadingCoeff = 1\<rparr>) = XMax (mainConfig 15)
      \<and> Im (Z \<lparr>Z = Complex 2 2, H = 3, Ord = 1, LeadingCoeff = 1\<rparr>) = YMax (mainConfig 15)"
    by (simp add: mainConfig_def)
  show ?thesis
    using out inside on
      viewport_filter [of "\<lparr>Z = 3, H = 3, Ord = 1, LeadingCoeff = 1\<rparr>" "mainConfig 15"
        "[\<lparr>Z = 0, H = 3, Ord = 1, LeadingCoeff = 1\<rparr>]" "[]"]
      viewport_filter [of "\<lparr>Z = Complex 2 2, H = 3, Ord = 1, LeadingCoeff = 1\<rparr>" "mainConfig 15"
        "[]"]
    by simp
qed

text \<open>
  Claim C8. Every colour channel of every pixel is non-decreasing while rendering: one
  pixel write of drawBlob, a whole call of drawBlob and the drawing of one more point
  each leave every channel unchanged or increase it, and every channel value is at most
  255 after a write and after a call.
\<close>

theorem drawBlob_monotone:
  "channelsLe img (drawBlob img x y radius col)
   \<and> channelsLe img (blobPixel x y radius col dy img dx)
   \<and> channelsBounded (drawBlob img x y radius col)
   \<and> channelsBounded (blobPixel x y radius col dy img dx)
   \<and> channelsLe (renderImage points config) (renderImage (points @ [point]) config)"
proof (intro conjI)
  show "channelsLe img (drawBlob img x y radius col)"
    by (rule blendsAs_channelsLe [OF drawBlob_blendsAs])
  show "channelsLe img (blobPixel x y radius col dy img dx)"
    by (rule blendsAs_channelsLe [OF blobPixel_blendsAs])
  show "channelsBounded (drawBlob img x y radius col)" by (rule channelsBounded_any)
  show "channelsBounded (blobPixel x y radius col dy img dx)" by (rule channelsBounded_any)
  have "channelsLe (renderImage points config) (drawPoint config (renderImage points config) point)"
    by (rule blendsAs_channelsLe [OF drawPoint_blendsAs])
  then show "channelsLe (renderImage points config) (renderImage (points @ [point]) config)"
    by (simp add: renderImage_def)
qed

theorem drawBlob_monotone_witness:
  "channelsLe (NewRGBA (Rect 0 0 4 4))
     (drawBlob (NewRGBA (Rect 0 0 4 4)) 1 1 3 (getColorForLeadingCoeff 1))
   \<and> channelsBounded (drawBlob (NewRGBA (Rect 0 0 4 4)) 1 1 3 (getColorForLeadingCoeff 1))
   \<and> channelsLe (renderImage [] (mainConfig 15))
        (renderImage ([] @ [\<lparr>Z = 0, H = 3, Ord = 1, LeadingCoeff = 1\<rparr>]) (mainConfig 15))"
  using drawBlob_monotone [of "NewRGBA (Rect 0 0 4 4)" 1 1 3 "getColorForLeadingCoeff 1" _ _
      "[]" "mainConfig 15" "\<lparr>Z = 0, H = 3, Ord = 1, LeadingCoeff = 1\<rparr>"]
  by blast

end
